theory Spec2Isabelle
  imports Complex_Main "HOL-Library.AList" "HOL-Library.Multiset"
begin

section \<open>Python values shared by the three engines\<close>

text \<open>
  Prices, quantities and clock readings are Python floats (IEEE doubles) in the source.
  A finite double is a real number, so the values are of type \<^typ>\<open>real\<close>; comparisons
  and dictionary lookups on finite doubles are the comparisons of the reals. NaN and the
  infinities are outside the model. The strings of the feed are modelled by the double
  they parse to. Update ids are Python's unbounded integers.

  The arithmetic of doubles rounds, so it is not the arithmetic of the reals. Every
  arithmetic operation the source performs on floats is therefore an operation of the
  runtime record below, and the definitions and theorems hold for whatever these
  operations are, in particular for those of the interpreter: \<open>fadd\<close>, \<open>fsub\<close>,
  \<open>fmul\<close> and \<open>fdiv\<close> are \<^verbatim>\<open>+\<close>, \<^verbatim>\<open>-\<close>, \<^verbatim>\<open>*\<close> and \<^verbatim>\<open>/\<close>; \<open>fpow2\<close> is
  \<^verbatim>\<open>x ** 2\<close>; \<open>fsqrt\<close> is \<^verbatim>\<open>math.sqrt\<close>; \<open>fsum\<close> is the built-in \<^verbatim>\<open>sum\<close> on a
  sequence of floats; \<open>set_order\<close> is the order in which a \<^verbatim>\<open>set\<close> built from the
  given keys is iterated. A division is only reached through an explicit test for a zero
  divisor, which raises \<^verbatim>\<open>ZeroDivisionError\<close>.
\<close>

record float_ops =
  fadd :: "real \<Rightarrow> real \<Rightarrow> real"
  fsub :: "real \<Rightarrow> real \<Rightarrow> real"
  fmul :: "real \<Rightarrow> real \<Rightarrow> real"
  fdiv :: "real \<Rightarrow> real \<Rightarrow> real"
  fpow2 :: "real \<Rightarrow> real"
  fsqrt :: "real \<Rightarrow> real"
  fsum :: "real list \<Rightarrow> real"
  set_order :: "real list \<Rightarrow> real list"

text \<open>
  Arithmetic without rounding. It agrees with double arithmetic on every operation whose
  exact result is a double, which is the case throughout the concrete inputs of this
  theory (small integers, quarters, and multiples of a double by a power of two).
\<close>

definition exact_ops :: float_ops where
  "exact_ops =
     \<lparr>fadd = (\<lambda>x y. x + y), fsub = (\<lambda>x y. x - y), fmul = (\<lambda>x y. x * y),
      fdiv = (\<lambda>x y. x / y), fpow2 = (\<lambda>x. x * x), fsqrt = sqrt,
      fsum = sum_list, set_order = remdups\<rparr>"

text \<open>
  The float literals \<^verbatim>\<open>1.2\<close> and \<^verbatim>\<open>0.003\<close> of the source denote the doubles nearest
  to them, whose exact values are these.
\<close>

definition double_1_2 :: real where
  "double_1_2 = 5404319552844595 / 4503599627370496"

definition double_0_003 :: real where
  "double_0_003 = 3458764513820541 / 1152921504606846976"

datatype py_error = KeyError | ZeroDivisionError | ValueError

text \<open>The slice \<^verbatim>\<open>xs[:d]\<close>: a negative bound counts from the end.\<close>

definition py_take :: "int \<Rightarrow> 'a list \<Rightarrow> 'a list" where
  "py_take d xs = (if 0 \<le> d then take (nat d) xs else take (length xs - nat (- d)) xs)"

text \<open>
  \<^verbatim>\<open>sorted(xs, key=key, reverse=reverse)\<close>: a stable sort; with \<^verbatim>\<open>reverse=True\<close>
  elements with equal keys still keep their original order.
\<close>

definition py_sorted :: "('a \<Rightarrow> real) \<Rightarrow> bool \<Rightarrow> 'a list \<Rightarrow> 'a list" where
  "py_sorted key reverse xs = (if reverse then rev (sort_key key (rev xs)) else sort_key key xs)"

text \<open>
  Truthiness of an \<^verbatim>\<open>Optional[float]\<close> in a condition: \<^verbatim>\<open>None\<close> and \<^verbatim>\<open>0.0\<close>
  are both false.
\<close>

definition truthy :: "real option \<Rightarrow> bool" where
  "truthy x = (case x of None \<Rightarrow> False | Some v \<Rightarrow> v \<noteq> 0)"

section \<open>orderbook.py: the order book and its manager\<close>

record PriceLevel =
  price :: real
  quantity :: real

definition notional :: "float_ops \<Rightarrow> PriceLevel \<Rightarrow> real" where
  "notional F l = fmul F (price l) (quantity l)"

record OrderBook =
  symbol :: string
  bids :: "PriceLevel list"
  asks :: "PriceLevel list"
  last_update_id :: int
  timestamp :: real

definition best_bid :: "OrderBook \<Rightarrow> real option" where
  "best_bid ob = (case bids ob of [] \<Rightarrow> None | l # _ \<Rightarrow> Some (price l))"

definition best_ask :: "OrderBook \<Rightarrow> real option" where
  "best_ask ob = (case asks ob of [] \<Rightarrow> None | l # _ \<Rightarrow> Some (price l))"

definition mid_price :: "float_ops \<Rightarrow> OrderBook \<Rightarrow> real option" where
  "mid_price F ob =
     (case (best_bid ob, best_ask ob) of
        (Some bb, Some ba) \<Rightarrow>
          (if bb \<noteq> 0 \<and> ba \<noteq> 0 then Some (fdiv F (fadd F bb ba) 2) else None)
      | _ \<Rightarrow> None)"

text \<open>
  The manager: \<open>last_u\<close> is the attribute \<^verbatim>\<open>_last_u\<close>, \<open>initialized\<close> is
  \<^verbatim>\<open>_initialized\<close>. The REST address is not part of the model.
\<close>

record OrderBookManager =
  depth :: int
  orderbook :: OrderBook
  last_u :: int
  initialized :: bool

definition new_manager :: "string \<Rightarrow> int \<Rightarrow> OrderBookManager" where
  "new_manager name d =
     \<lparr>depth = d,
      orderbook = \<lparr>symbol = name, bids = [], asks = [], last_update_id = 0, timestamp = 0\<rparr>,
      last_u = 0, initialized = False\<rparr>"

text \<open>
  The body of the REST answer read by \<^verbatim>\<open>initialize\<close>; the request itself is input
  and output, so the answer and the clock reading are parameters.
\<close>

record RestSnapshot =
  lastUpdateId :: int
  snap_bids :: "(real \<times> real) list"
  snap_asks :: "(real \<times> real) list"

definition initialize :: "OrderBookManager \<Rightarrow> RestSnapshot \<Rightarrow> real \<Rightarrow> OrderBookManager" where
  "initialize m data now =
     m\<lparr>orderbook := (orderbook m)
          \<lparr>bids := map (\<lambda>(p, q). \<lparr>price = p, quantity = q\<rparr>) (snap_bids data),
           asks := map (\<lambda>(p, q). \<lparr>price = p, quantity = q\<rparr>) (snap_asks data),
           last_update_id := lastUpdateId data,
           timestamp := now\<rparr>,
       last_u := lastUpdateId data,
       initialized := True\<rparr>"

text \<open>
  A depth event is a dictionary; \<^verbatim>\<open>event.get\<close> tolerates a missing key and
  \<^verbatim>\<open>event[...]\<close> raises \<^verbatim>\<open>KeyError\<close>, so every field is optional here.
\<close>

record DepthEvent =
  ev_U :: "int option"
  ev_u :: "int option"
  ev_pu :: "int option"
  ev_b :: "(real \<times> real) list option"
  ev_a :: "(real \<times> real) list option"

text \<open>
  \<^verbatim>\<open>_apply_update\<close>. The dictionary \<^verbatim>\<open>price_map\<close> is an association list in
  insertion order: assigning to a key that is present keeps its position, \<^verbatim>\<open>pop\<close>
  removes it.
\<close>

definition price_map_of :: "PriceLevel list \<Rightarrow> (real \<times> PriceLevel) list" where
  "price_map_of book_side = foldl (\<lambda>pm level. AList.update (price level) level pm) [] book_side"

fun apply_levels :: "(real \<times> real) list \<Rightarrow> (real \<times> PriceLevel) list \<Rightarrow> (real \<times> PriceLevel) list" where
  "apply_levels [] pm = pm"
| "apply_levels ((p, qty) # updates) pm =
     apply_levels updates
       (if qty = 0 then AList.delete p pm
        else AList.update p \<lparr>price = p, quantity = qty\<rparr> pm)"

definition apply_update :: "(real \<times> real) list \<Rightarrow> PriceLevel list \<Rightarrow> bool \<Rightarrow> PriceLevel list" where
  "apply_update updates book_side reverse =
     py_sorted price reverse (map snd (apply_levels updates (price_map_of book_side)))"

text \<open>
  \<^verbatim>\<open>process_update\<close> returns the raised error or the boolean, together with the
  manager as the call leaves it. \<^verbatim>\<open>event["a"]\<close> is read after the bids have been
  rewritten, so a missing \<^verbatim>\<open>"a"\<close> leaves the new bids behind.
\<close>

definition crossed :: "OrderBook \<Rightarrow> bool" where
  "crossed ob =
     (truthy (best_bid ob) \<and> truthy (best_ask ob) \<and>
      (case (best_bid ob, best_ask ob) of (Some bb, Some ba) \<Rightarrow> bb \<ge> ba | _ \<Rightarrow> False))"

definition process_update ::
  "OrderBookManager \<Rightarrow> DepthEvent \<Rightarrow> real \<Rightarrow> (py_error + bool) \<times> OrderBookManager" where
  "process_update m event now =
     (if \<not> initialized m then (Inr False, m)
      else (case ev_u event of
        None \<Rightarrow> (Inl KeyError, m)
      | Some u \<Rightarrow>
         (let U = (case ev_U event of Some x \<Rightarrow> x | None \<Rightarrow> u);
              pu = (case ev_pu event of Some x \<Rightarrow> x | None \<Rightarrow> last_u m)
          in if (if last_u m = last_update_id (orderbook m)
                 then \<not> (U \<le> last_u m + 1 \<and> last_u m + 1 \<le> u)
                 else pu \<noteq> last_u m)
             then (Inr False, m)
             else (case ev_b event of
               None \<Rightarrow> (Inl KeyError, m)
             | Some b \<Rightarrow>
                (let m1 = m\<lparr>orderbook := (orderbook m)\<lparr>bids := apply_update b (bids (orderbook m)) True\<rparr>\<rparr>
                 in (case ev_a event of
                   None \<Rightarrow> (Inl KeyError, m1)
                 | Some a \<Rightarrow>
                    (let ob2 = (orderbook m1)\<lparr>asks := apply_update a (asks (orderbook m1)) False\<rparr>;
                         ob3 = ob2\<lparr>bids := py_take (depth m) (bids ob2)\<rparr>;
                         ob4 = ob3\<lparr>asks := py_take (depth m) (asks ob3)\<rparr>;
                         ob5 = ob4\<lparr>last_update_id := u, timestamp := now\<rparr>;
                         m' = m1\<lparr>orderbook := ob5, last_u := u\<rparr>
                     in if crossed ob5 then (Inr False, m') else (Inr True, m'))))))))"

text \<open>
  The ordering policy and the effect of a successful application, in the words of the
  specification (section 4.1), for comparison with \<open>process_update\<close>:
  if \<^verbatim>\<open>_last_u == last_update_id\<close> accept iff \<open>U \<le> _last_u + 1 \<le> u\<close>, otherwise
  accept iff \<open>pu == _last_u\<close>; on success both sides are updated and truncated to the
  depth and the two counters and the timestamp are set.
\<close>

definition ordering_predicate :: "OrderBookManager \<Rightarrow> int \<Rightarrow> int \<Rightarrow> int \<Rightarrow> bool" where
  "ordering_predicate m U u pu =
     (if last_u m = last_update_id (orderbook m)
      then U \<le> last_u m + 1 \<and> last_u m + 1 \<le> u
      else pu = last_u m)"

definition applied ::
  "OrderBookManager \<Rightarrow> (real \<times> real) list \<Rightarrow> (real \<times> real) list \<Rightarrow> int \<Rightarrow> real \<Rightarrow> OrderBookManager" where
  "applied m b a u now =
     m\<lparr>orderbook := (orderbook m)
          \<lparr>bids := py_take (depth m) (apply_update b (bids (orderbook m)) True),
           asks := py_take (depth m) (apply_update a (asks (orderbook m)) False),
           last_update_id := u,
           timestamp := now\<rparr>,
       last_u := u\<rparr>"

text \<open>The values \<open>process_update\<close> reads for \<^verbatim>\<open>U\<close> and \<^verbatim>\<open>pu\<close>, defaults included.\<close>

definition field_U :: "DepthEvent \<Rightarrow> int \<Rightarrow> int" where
  "field_U event u = (case ev_U event of Some x \<Rightarrow> x | None \<Rightarrow> u)"

definition field_pu :: "OrderBookManager \<Rightarrow> DepthEvent \<Rightarrow> int" where
  "field_pu m event = (case ev_pu event of Some x \<Rightarrow> x | None \<Rightarrow> last_u m)"

text \<open>
  The managers a collector can hold: created by the constructor, then changed only by
  \<open>initialize\<close> and \<open>process_update\<close>.
\<close>

inductive reachable :: "OrderBookManager \<Rightarrow> bool" where
  created: "reachable (new_manager name d)"
| reinitialized: "reachable m \<Longrightarrow> reachable (initialize m data now)"
| updated: "reachable m \<Longrightarrow> reachable (snd (process_update m event now))"

definition strictly_descending :: "PriceLevel list \<Rightarrow> bool" where
  "strictly_descending levels = sorted_wrt (\<lambda>x y. price x > price y) levels"

definition strictly_ascending :: "PriceLevel list \<Rightarrow> bool" where
  "strictly_ascending levels = sorted_wrt (\<lambda>x y. price x < price y) levels"

text \<open>
  The data model of the specification (section 3) gives every price level a positive
  price. In particular no best price is \<^verbatim>\<open>0.0\<close>, which the truth tests of
  \<^verbatim>\<open>process_update\<close> and \<^verbatim>\<open>mid_price\<close> would take for an empty side.
\<close>

definition positive_prices :: "OrderBook \<Rightarrow> bool" where
  "positive_prices ob =
     (list_all (\<lambda>l. 0 < price l) (bids ob) \<and> list_all (\<lambda>l. 0 < price l) (asks ob))"

text \<open>The invariant of \<^verbatim>\<open>price_map\<close>: keys are unique and each level sits under its price.\<close>

definition price_map_inv :: "(real \<times> PriceLevel) list \<Rightarrow> bool" where
  "price_map_inv pm = (distinct (map fst pm) \<and> list_all (\<lambda>(k, v). price v = k) pm)"

section \<open>wall\_tracker.py: the wall tracker\<close>

datatype WallSide = BID | ASK

record Wall =
  wall_price :: real
  side :: WallSide
  initial_qty :: real
  current_qty :: real
  first_seen :: real
  last_seen :: real
  replenish_count :: int
  test_count :: int
  peak_qty :: real

text \<open>
  An emitted event. The source stores \<^verbatim>\<open>wall.to_dict()\<close>, a rendering of the wall's
  fields at the moment of the call; the event here carries those fields themselves.
\<close>

datatype WallEventType = WALL_REPLENISH | NEW_WALL | WALL_REMOVED

record WallEvent =
  ev_type :: WallEventType
  ev_wall :: Wall
  ev_reason :: "string option"

text \<open>
  The tracker; \<^verbatim>\<open>walls\<close> is a dictionary in insertion order. Every reading of
  \<^verbatim>\<open>time.time()\<close> during one call is the parameter \<open>now\<close>.
\<close>

record WallTracker =
  tracker_symbol :: string
  threshold :: real
  walls :: "((real \<times> WallSide) \<times> Wall) list"

definition new_tracker :: "string \<Rightarrow> real \<Rightarrow> WallTracker" where
  "new_tracker name threshold_usd = \<lparr>tracker_symbol = name, threshold = threshold_usd, walls = []\<rparr>"

text \<open>The constructor \<^verbatim>\<open>Wall(...)\<close> of the new-wall branch, with \<^verbatim>\<open>__post_init__\<close>.\<close>

definition new_wall :: "real \<Rightarrow> WallSide \<Rightarrow> real \<Rightarrow> real \<Rightarrow> Wall" where
  "new_wall p s qty now =
     \<lparr>wall_price = p, side = s, initial_qty = qty, current_qty = qty,
      first_seen = now, last_seen = now, replenish_count = 0, test_count = 0,
      peak_qty = max 0 qty\<rparr>"

text \<open>
  The body of the loop of \<^verbatim>\<open>_process_side\<close> for one level. The division by the price
  raises \<^verbatim>\<open>ZeroDivisionError\<close> at price zero, after \<^verbatim>\<open>replenish_count\<close> may have
  been incremented on the stored wall.
\<close>

definition process_level ::
  "float_ops \<Rightarrow> WallTracker \<Rightarrow> PriceLevel \<Rightarrow> WallSide \<Rightarrow> real option \<Rightarrow> real \<Rightarrow>
     (py_error + WallEvent list) \<times> WallTracker" where
  "process_level F t level s current_price now =
     (let p = price level; qty = quantity level; key = (p, s)
      in if notional F level \<ge> threshold t then
           (case map_of (walls t) key of
              Some wall \<Rightarrow>
                (let old_qty = current_qty wall;
                     replenished = (qty > fmul F old_qty double_1_2);
                     wall1 = (if replenished
                              then wall\<lparr>replenish_count := replenish_count wall + 1\<rparr> else wall);
                     events = (if replenished
                               then [\<lparr>ev_type = WALL_REPLENISH, ev_wall = wall1, ev_reason = None\<rparr>]
                               else [])
                 in if truthy current_price \<and> p = 0
                    then (Inl ZeroDivisionError, t\<lparr>walls := AList.update key wall1 (walls t)\<rparr>)
                    else
                      (let tested = (case current_price of
                                       None \<Rightarrow> False
                                     | Some cp \<Rightarrow>
                                         cp \<noteq> 0 \<and> fdiv F \<bar>fsub F cp p\<bar> p < double_0_003);
                           wall2 = (if tested then wall1\<lparr>test_count := test_count wall1 + 1\<rparr> else wall1);
                           wall3 = wall2\<lparr>current_qty := qty,
                                         peak_qty := max (peak_qty wall2) qty,
                                         last_seen := now\<rparr>
                       in (Inr events, t\<lparr>walls := AList.update key wall3 (walls t)\<rparr>)))
            | None \<Rightarrow>
                (let wall = new_wall p s qty now
                 in (Inr [\<lparr>ev_type = NEW_WALL, ev_wall = wall, ev_reason = None\<rparr>],
                     t\<lparr>walls := AList.update key wall (walls t)\<rparr>)))
         else (Inr [], t))"

fun process_side ::
  "float_ops \<Rightarrow> WallTracker \<Rightarrow> PriceLevel list \<Rightarrow> WallSide \<Rightarrow> real option \<Rightarrow> real \<Rightarrow>
     (py_error + WallEvent list) \<times> WallTracker" where
  "process_side F t [] s current_price now = (Inr [], t)"
| "process_side F t (level # levels) s current_price now =
     (case process_level F t level s current_price now of
        (Inl e, t1) \<Rightarrow> (Inl e, t1)
      | (Inr events, t1) \<Rightarrow>
          (case process_side F t1 levels s current_price now of
             (Inl e, t2) \<Rightarrow> (Inl e, t2)
           | (Inr events', t2) \<Rightarrow> (Inr (events @ events'), t2)))"

definition removal_event :: "Wall \<Rightarrow> WallEvent" where
  "removal_event wall =
     \<lparr>ev_type = WALL_REMOVED, ev_wall = wall,
      ev_reason = Some (if test_count wall > 0 then ''consumed'' else ''cancelled'')\<rparr>"

definition cleanup_dead_walls :: "WallTracker \<Rightarrow> OrderBook \<Rightarrow> WallEvent list \<times> WallTracker" where
  "cleanup_dead_walls t ob =
     (let all_prices = map (\<lambda>l. (price l, BID)) (bids ob) @ map (\<lambda>l. (price l, ASK)) (asks ob);
          dead = filter (\<lambda>(key, wall). key \<notin> set all_prices) (walls t);
          events = map (\<lambda>(key, wall). removal_event wall) dead;
          dead_keys = map fst dead
      in (events, t\<lparr>walls := foldl (\<lambda>ws key. AList.delete key ws) (walls t) dead_keys\<rparr>))"

text \<open>\<^verbatim>\<open>WallTracker.update\<close>.\<close>

definition tracker_update ::
  "float_ops \<Rightarrow> WallTracker \<Rightarrow> OrderBook \<Rightarrow> real \<Rightarrow> (py_error + WallEvent list) \<times> WallTracker" where
  "tracker_update F t ob now =
     (let current_price = mid_price F ob
      in (case process_side F t (bids ob) BID current_price now of
            (Inl e, t1) \<Rightarrow> (Inl e, t1)
          | (Inr events1, t1) \<Rightarrow>
              (case process_side F t1 (asks ob) ASK current_price now of
                 (Inl e, t2) \<Rightarrow> (Inl e, t2)
               | (Inr events2, t2) \<Rightarrow>
                   (case cleanup_dead_walls t2 ob of
                      (events3, t3) \<Rightarrow> (Inr (events1 @ events2 @ events3), t3)))))"

text \<open>
  The tracker after successive calls of \<^verbatim>\<open>update\<close> on a list of snapshots with their
  clock readings. A call that raises leaves the tracker as far as it got, and the
  collector goes on with it.
\<close>

fun tracker_run :: "float_ops \<Rightarrow> WallTracker \<Rightarrow> (OrderBook \<times> real) list \<Rightarrow> WallTracker" where
  "tracker_run F t [] = t"
| "tracker_run F t ((ob, now) # rest) = tracker_run F (snd (tracker_update F t ob now)) rest"

text \<open>
  The dictionary invariant of \<^verbatim>\<open>walls\<close>: keys are unique, and each wall is stored
  under its own price and side.
\<close>

definition walls_inv :: "WallTracker \<Rightarrow> bool" where
  "walls_inv t =
     (distinct (map fst (walls t)) \<and>
      list_all (\<lambda>(key, wall). key = (wall_price wall, side wall)) (walls t))"

definition event_key :: "WallEvent \<Rightarrow> real \<times> WallSide" where
  "event_key e = (wall_price (ev_wall e), side (ev_wall e))"

text \<open>The events of one type that an update emitted for one wall key.\<close>

definition events_for :: "WallEventType \<Rightarrow> real \<times> WallSide \<Rightarrow> WallEvent list \<Rightarrow> WallEvent list" where
  "events_for ty key events = filter (\<lambda>e. ev_type e = ty \<and> event_key e = key) events"

definition side_levels :: "OrderBook \<Rightarrow> WallSide \<Rightarrow> PriceLevel list" where
  "side_levels ob s = (case s of BID \<Rightarrow> bids ob | ASK \<Rightarrow> asks ob)"

text \<open>
  What the specification (section 4.2) says happens to a tracked wall that is seen again
  at or above the threshold with quantity \<open>qty\<close>, for comparison with \<open>tracker_update\<close>.
\<close>

definition replenishes :: "float_ops \<Rightarrow> Wall \<Rightarrow> real \<Rightarrow> bool" where
  "replenishes F wall qty = (qty > fmul F (current_qty wall) double_1_2)"

definition tests :: "float_ops \<Rightarrow> real option \<Rightarrow> real \<Rightarrow> bool" where
  "tests F mid p =
     (case mid of None \<Rightarrow> False | Some cp \<Rightarrow> fdiv F \<bar>fsub F cp p\<bar> p < double_0_003)"

definition observed :: "float_ops \<Rightarrow> Wall \<Rightarrow> real \<Rightarrow> real option \<Rightarrow> real \<Rightarrow> Wall" where
  "observed F wall qty mid now =
     wall\<lparr>replenish_count := replenish_count wall + (if replenishes F wall qty then 1 else 0),
          test_count := test_count wall + (if tests F mid (wall_price wall) then 1 else 0),
          current_qty := qty,
          peak_qty := max (peak_qty wall) qty,
          last_seen := now\<rparr>"

section \<open>ofi\_calculator.py: the order-flow-imbalance calculator\<close>

record OFIState =
  raw :: real
  ema :: real
  std :: real
  z_score :: real
  signal :: string

definition default_state :: OFIState where
  "default_state = \<lparr>raw = 0, ema = 0, std = 1, z_score = 0, signal = ''NEUTRAL''\<rparr>"

text \<open>
  \<^verbatim>\<open>_std\<close>: the population standard deviation as the source computes it, zero on the
  empty list. The variance is a quotient of a sum of squares by a positive count, never
  negative in double arithmetic, so \<^verbatim>\<open>math.sqrt\<close> stays within its domain.
\<close>

definition py_std :: "float_ops \<Rightarrow> real list \<Rightarrow> real" where
  "py_std F values =
     (if values = [] then 0
      else (let mean = fdiv F (fsum F values) (real (length values));
                var = fdiv F (fsum F (map (\<lambda>v. fpow2 F (fsub F v mean)) values))
                             (real (length values))
            in fsqrt F var))"

text \<open>
  The calculator. \<open>calc_ema\<close> is \<^verbatim>\<open>_ema\<close>, \<open>history\<close> is the deque \<^verbatim>\<open>_history\<close> with
  its bound \<open>maxlen\<close>, \<open>calc_initialized\<close> is \<^verbatim>\<open>_initialized\<close>.
\<close>

record OFICalculator =
  calc_depth :: int
  ema_span :: int
  alpha :: real
  prev_bids :: "(real \<times> real) list option"
  prev_asks :: "(real \<times> real) list option"
  calc_ema :: real
  history :: "real list"
  maxlen :: nat
  calc_initialized :: bool

text \<open>
  The constructor: \<^verbatim>\<open>2 / (ema_span + 1)\<close> raises at \<^verbatim>\<open>ema_span = -1\<close>, and
  \<^verbatim>\<open>deque(maxlen=history_size)\<close> raises \<^verbatim>\<open>ValueError\<close> for a negative size.
\<close>

definition new_calculator ::
  "float_ops \<Rightarrow> int \<Rightarrow> int \<Rightarrow> int \<Rightarrow> py_error + OFICalculator" where
  "new_calculator F d n history_size =
     (if n + 1 = 0 then Inl ZeroDivisionError
      else if history_size < 0 then Inl ValueError
      else Inr \<lparr>calc_depth = d, ema_span = n, alpha = fdiv F 2 (real_of_int (n + 1)),
                prev_bids = None, prev_asks = None, calc_ema = 0, history = [],
                maxlen = nat history_size, calc_initialized = False\<rparr>)"

text \<open>\<^verbatim>\<open>deque.append\<close> on a bounded deque: the oldest entry leaves when the bound is passed.\<close>

definition deque_append :: "nat \<Rightarrow> real list \<Rightarrow> real \<Rightarrow> real list" where
  "deque_append n h x = (let h' = h @ [x] in drop (length h' - n) h')"

text \<open>
  \<^verbatim>\<open>{p: q for p, q in levels}\<close> and \<^verbatim>\<open>.get(price, 0)\<close>: the last pair of a price wins.
  The loop of \<^verbatim>\<open>_calculate_raw_ofi\<close> adds the differences to \<^verbatim>\<open>0.0\<close> in the order in
  which the set of prices is iterated.
\<close>

definition qty_at :: "(real \<times> real) list \<Rightarrow> real \<Rightarrow> real" where
  "qty_at levels p = (case map_of (rev levels) p of Some q \<Rightarrow> q | None \<Rightarrow> 0)"

definition side_delta ::
  "float_ops \<Rightarrow> (real \<times> real) list \<Rightarrow> (real \<times> real) list \<Rightarrow> real" where
  "side_delta F prev_levels curr_levels =
     foldl (\<lambda>delta p. fadd F delta (fsub F (qty_at curr_levels p) (qty_at prev_levels p))) 0
           (set_order F (map fst prev_levels @ map fst curr_levels))"

definition calculate_raw_ofi ::
  "float_ops \<Rightarrow> OFICalculator \<Rightarrow> (real \<times> real) list \<Rightarrow> (real \<times> real) list \<Rightarrow> real" where
  "calculate_raw_ofi F c bids' asks' =
     (let bid_delta = side_delta F (case prev_bids c of Some xs \<Rightarrow> xs | None \<Rightarrow> []) bids';
          ask_delta = side_delta F (case prev_asks c of Some xs \<Rightarrow> xs | None \<Rightarrow> []) asks'
      in fsub F bid_delta ask_delta)"

definition get_signal :: "real \<Rightarrow> string" where
  "get_signal z =
     (if z > 2 then ''STRONG_BUY''
      else if z > 1 then ''BUY''
      else if z < - 2 then ''STRONG_SELL''
      else if z < - 1 then ''SELL''
      else ''NEUTRAL'')"

text \<open>\<^verbatim>\<open>OFICalculator.update\<close>: the returned state and the calculator after the call.\<close>

definition ofi_update ::
  "float_ops \<Rightarrow> OFICalculator \<Rightarrow> OrderBook \<Rightarrow> OFIState \<times> OFICalculator" where
  "ofi_update F c ob =
     (let bids' = map (\<lambda>l. (price l, quantity l)) (py_take (calc_depth c) (bids ob));
          asks' = map (\<lambda>l. (price l, quantity l)) (py_take (calc_depth c) (asks ob))
      in (case prev_bids c of
            None \<Rightarrow> (default_state, c\<lparr>prev_bids := Some bids', prev_asks := Some asks'\<rparr>)
          | Some _ \<Rightarrow>
             (let raw_ofi = calculate_raw_ofi F c bids' asks';
                  ema' = (if \<not> calc_initialized c then raw_ofi
                          else fadd F (fmul F (alpha c) raw_ofi)
                                      (fmul F (fsub F 1 (alpha c)) (calc_ema c)));
                  history' = deque_append (maxlen c) (history c) raw_ofi;
                  std' = (if length history' \<ge> 20 then py_std F history' else 1);
                  z = (if length history' \<ge> 20
                       then (if std' > 0 then fdiv F ema' std' else 0)
                       else 0);
                  c' = c\<lparr>calc_ema := ema', calc_initialized := True, history := history',
                         prev_bids := Some bids', prev_asks := Some asks'\<rparr>
              in (\<lparr>raw = raw_ofi, ema = ema', std = std', z_score = z, signal = get_signal z\<rparr>, c'))))"

text \<open>The states returned by successive calls of \<^verbatim>\<open>update\<close> on a list of snapshots.\<close>

fun run_updates :: "float_ops \<Rightarrow> OFICalculator \<Rightarrow> OrderBook list \<Rightarrow> OFIState list" where
  "run_updates F c [] = []"
| "run_updates F c (ob # obs) =
     fst (ofi_update F c ob) # run_updates F (snd (ofi_update F c ob)) obs"

text \<open>The calculator after successive calls of \<^verbatim>\<open>update\<close> on a list of snapshots.\<close>

fun run_state :: "float_ops \<Rightarrow> OFICalculator \<Rightarrow> OrderBook list \<Rightarrow> OFICalculator" where
  "run_state F c [] = c"
| "run_state F c (ob # obs) = run_state F (snd (ofi_update F c ob)) obs"

section \<open>Concrete inputs\<close>

text \<open>
  The initialization scenario of the specification (section 8): a snapshot with
  \<^verbatim>\<open>lastUpdateId = 100\<close>, bids at 10.0 and 9.9, an ask at 10.1, and a first event
  \<^verbatim>\<open>U = 101, u = 103\<close> that deletes the bid at 9.9 and adds an ask at 10.2.
\<close>

definition snapshot0 :: RestSnapshot where
  "snapshot0 = \<lparr>lastUpdateId = 100, snap_bids = [(10, 1), (99 / 10, 2)], snap_asks = [(101 / 10, 3 / 2)]\<rparr>"

definition book0 :: OrderBookManager where
  "book0 = initialize (new_manager ''BTCUSDT'' 20) snapshot0 0"

definition event1 :: DepthEvent where
  "event1 = \<lparr>ev_U = Some 101, ev_u = Some 103, ev_pu = Some 100,
             ev_b = Some [(99 / 10, 0)], ev_a = Some [(102 / 10, 1 / 2)]\<rparr>"

text \<open>An event in sequence that places a bid at 11, above the ask at 10.1.\<close>

definition crossing_event :: DepthEvent where
  "crossing_event = \<lparr>ev_U = Some 101, ev_u = Some 103, ev_pu = Some 100,
                     ev_b = Some [(11, 1)], ev_a = Some []\<rparr>"

text \<open>An event in sequence that places an ask at price zero, outside the data model.\<close>

definition zero_ask_event :: DepthEvent where
  "zero_ask_event = \<lparr>ev_U = Some 101, ev_u = Some 103, ev_pu = Some 100,
                     ev_b = Some [], ev_a = Some [(0, 1)]\<rparr>"

text \<open>The gap scenario: \<^verbatim>\<open>U = 105, u = 107\<close> does not cover id 101.\<close>

definition gap_event :: DepthEvent where
  "gap_event = \<lparr>ev_U = Some 105, ev_u = Some 107, ev_pu = Some 104,
                ev_b = Some [(99 / 10, 0)], ev_a = Some []\<rparr>"

text \<open>
  A manager whose two counters differ. \<open>initialize\<close> and \<open>process_update\<close> always
  leave them equal, so this one has \<^verbatim>\<open>_last_u\<close> assigned directly. The event
  \<open>stale_event\<close> names 102 as the id before it and adds a bid at 9.8.
\<close>

definition split_book :: OrderBookManager where
  "split_book = book0\<lparr>last_u := 103\<rparr>"

definition stale_event :: DepthEvent where
  "stale_event = \<lparr>ev_U = Some 104, ev_u = Some 106, ev_pu = Some 102,
                  ev_b = Some [(98 / 10, 5)], ev_a = Some []\<rparr>"

definition event_without_pu :: DepthEvent where
  "event_without_pu = \<lparr>ev_U = Some 104, ev_u = Some 106, ev_pu = None,
                       ev_b = Some [(99 / 10, 0)], ev_a = Some []\<rparr>"

definition event_without_U :: DepthEvent where
  "event_without_U = \<lparr>ev_U = None, ev_u = Some 101, ev_pu = Some 100,
                      ev_b = Some [(99 / 10, 0)], ev_a = Some []\<rparr>"

text \<open>
  A wall scenario after the one of the specification (section 8), with threshold 200000
  and values whose arithmetic is exact in doubles: a bid of 2048 at price 128 (notional
  262144), then 4096 at the same price (notional 524288), then the level is gone. In
  \<open>wall_book2\<close> the ask rests at 128.25, so the mid price 128.125 lies at relative
  distance \<open>2\<^sup>-\<^sup>1\<^sup>0\<close> from the wall, below 0.003; in \<open>wall_book1\<close> the mid price
  128.5 lies at distance \<open>2\<^sup>-\<^sup>8\<close>, above it. In \<open>wall_book4\<close> the bid at 128 has shrunk
  to 1024, a notional of 131072.
\<close>

definition tracker0 :: WallTracker where
  "tracker0 = new_tracker ''BTCUSDT'' 200000"

definition wall_book1 :: OrderBook where
  "wall_book1 = \<lparr>symbol = ''BTCUSDT'', bids = [\<lparr>price = 128, quantity = 2048\<rparr>],
                 asks = [\<lparr>price = 129, quantity = 1\<rparr>], last_update_id = 1, timestamp = 10\<rparr>"

definition wall1 :: Wall where
  "wall1 = \<lparr>wall_price = 128, side = BID, initial_qty = 2048, current_qty = 2048,
            first_seen = 10, last_seen = 10, replenish_count = 0, test_count = 0,
            peak_qty = 2048\<rparr>"

definition tracker1 :: WallTracker where
  "tracker1 = tracker0\<lparr>walls := [((128, BID), wall1)]\<rparr>"

definition wall_book2 :: OrderBook where
  "wall_book2 = \<lparr>symbol = ''BTCUSDT'', bids = [\<lparr>price = 128, quantity = 4096\<rparr>],
                 asks = [\<lparr>price = 513 / 4, quantity = 1\<rparr>], last_update_id = 2, timestamp = 11\<rparr>"

definition wall2 :: Wall where
  "wall2 = \<lparr>wall_price = 128, side = BID, initial_qty = 2048, current_qty = 4096,
            first_seen = 10, last_seen = 11, replenish_count = 1, test_count = 1,
            peak_qty = 4096\<rparr>"

definition wall_book3 :: OrderBook where
  "wall_book3 = \<lparr>symbol = ''BTCUSDT'', bids = [\<lparr>price = 127, quantity = 1\<rparr>],
                 asks = [\<lparr>price = 129, quantity = 1\<rparr>], last_update_id = 3, timestamp = 12\<rparr>"

definition wall_book4 :: OrderBook where
  "wall_book4 = \<lparr>symbol = ''BTCUSDT'', bids = [\<lparr>price = 128, quantity = 1024\<rparr>],
                 asks = [\<lparr>price = 129, quantity = 1\<rparr>], last_update_id = 4, timestamp = 13\<rparr>"

text \<open>
  A calculator of depth 10, span 3 (so that \<open>\<alpha> = 2 / 4\<close>, the double 0.5) and history
  size 100, and twenty-one snapshots whose bid at price 100 alternates between 2 and 4:
  the twenty raw values alternate between 2 and -2, and every value of the moving average
  is a multiple of \<open>2\<^sup>-\<^sup>1\<^sup>7\<close> below 2 in size, computed without rounding.
\<close>

definition calc0 :: OFICalculator where
  "calc0 = \<lparr>calc_depth = 10, ema_span = 3, alpha = 1 / 2, prev_bids = None, prev_asks = None,
            calc_ema = 0, history = [], maxlen = 100, calc_initialized = False\<rparr>"

definition book_a :: OrderBook where
  "book_a = \<lparr>symbol = ''BTCUSDT'', bids = [\<lparr>price = 100, quantity = 2\<rparr>],
             asks = [\<lparr>price = 101, quantity = 1\<rparr>], last_update_id = 5, timestamp = 14\<rparr>"

definition book_b :: OrderBook where
  "book_b = \<lparr>symbol = ''BTCUSDT'', bids = [\<lparr>price = 100, quantity = 4\<rparr>],
             asks = [\<lparr>price = 101, quantity = 1\<rparr>], last_update_id = 6, timestamp = 15\<rparr>"

definition ofi_books :: "OrderBook list" where
  "ofi_books = [book_a, book_b, book_a, book_b, book_a, book_b, book_a, book_b, book_a, book_b,
                book_a, book_b, book_a, book_b, book_a, book_b, book_a, book_b, book_a, book_b,
                book_a]"

text \<open>The same manager as \<open>book0\<close>, with depth 2.\<close>

definition shallow_book :: OrderBookManager where
  "shallow_book = initialize (new_manager ''BTCUSDT'' 2) snapshot0 0"

section \<open>Properties of the order book manager\<close>

subsection \<open>The two outcomes of the ordering check\<close>

lemma process_update_rejects:
  assumes "initialized m" and "ev_u event = Some u"
    and "\<not> ordering_predicate m (field_U event u) u (field_pu m event)"
  shows "process_update m event now = (Inr False, m)"
  using assms
  by (cases "last_u m = last_update_id (orderbook m)")
     (simp_all add: process_update_def ordering_predicate_def field_U_def field_pu_def Let_def)

lemma process_update_applies:
  assumes "initialized m" and "ev_u event = Some u"
    and "ev_b event = Some b" and "ev_a event = Some a"
    and "ordering_predicate m (field_U event u) u (field_pu m event)"
  shows "process_update m event now =
           (Inr (\<not> crossed (orderbook (applied m b a u now))), applied m b a u now)"
  using assms
  by (cases "last_u m = last_update_id (orderbook m)")
     (simp_all add: process_update_def ordering_predicate_def field_U_def field_pu_def
        Let_def applied_def)

lemma process_update_True:
  assumes "process_update m event now = (Inr True, m')"
  shows "\<exists>b a u. m' = applied m b a u now \<and> \<not> crossed (orderbook m')"
proof -
  from assms have i: "initialized m"
    by (auto simp: process_update_def split: if_splits)
  from assms i obtain u where u: "ev_u event = Some u"
    by (cases "ev_u event") (auto simp: process_update_def)
  have p: "ordering_predicate m (field_U event u) u (field_pu m event)"
    using assms process_update_rejects [OF i u] by fastforce
  from assms i u p obtain b where b: "ev_b event = Some b"
    by (cases "ev_b event")
       (auto simp: process_update_def ordering_predicate_def field_U_def field_pu_def Let_def
             split: if_splits)
  from assms i u p b obtain a where a: "ev_a event = Some a"
    by (cases "ev_a event")
       (auto simp: process_update_def ordering_predicate_def field_U_def field_pu_def Let_def
             split: if_splits)
  from process_update_applies [OF i u b a p, of now] assms
  have "m' = applied m b a u now" and "\<not> crossed (orderbook (applied m b a u now))"
    by simp_all
  then show ?thesis by auto
qed

lemma best_prices_positive:
  assumes "positive_prices ob" and "best_bid ob = Some bb" and "best_ask ob = Some ba"
  shows "0 < bb \<and> 0 < ba"
  using assms
  by (auto simp: positive_prices_def best_bid_def best_ask_def split: list.splits)

lemma crossed_positive:
  assumes "positive_prices ob" and "best_bid ob = Some bb" and "best_ask ob = Some ba"
  shows "crossed ob = (ba \<le> bb)"
  using best_prices_positive [OF assms] assms(2,3)
  by (simp add: crossed_def truthy_def)

text \<open>
  Both counters are written together, by the constructor, by \<open>initialize\<close> and by
  \<open>process_update\<close>: on every manager a collector holds they are equal, so the
  branch that compares \<^verbatim>\<open>pu\<close> is never taken there.
\<close>

lemma reachable_counters_agree:
  "reachable m \<Longrightarrow> last_u m = last_update_id (orderbook m)"
proof (induction rule: reachable.induct)
  case (created name d)
  show ?case by (simp add: new_manager_def)
next
  case (reinitialized m data now)
  show ?case by (simp add: initialize_def)
next
  case (updated m event now)
  then show ?case
    by (simp add: process_update_def Let_def split: option.splits)
qed

subsection \<open>Sorting a price map\<close>

lemma price_map_inv_update:
  "price_map_inv pm \<Longrightarrow> price v = k \<Longrightarrow> price_map_inv (AList.update k v pm)"
  unfolding price_map_inv_def
  by (induction pm) (auto simp: distinct_update image_iff dom_update)

lemma price_map_inv_delete:
  assumes "price_map_inv pm"
  shows "price_map_inv (AList.delete k pm)"
proof -
  have "distinct (map fst (AList.delete k pm))"
    using assms by (simp add: price_map_inv_def distinct_delete)
  moreover have "list_all (\<lambda>(k, v). price v = k) (AList.delete k pm)"
    using assms by (auto simp: price_map_inv_def AList.delete_eq list_all_iff)
  ultimately show ?thesis by (simp add: price_map_inv_def)
qed

lemma price_map_inv_foldl:
  "price_map_inv pm \<Longrightarrow>
   price_map_inv (foldl (\<lambda>pm level. AList.update (price level) level pm) pm xs)"
  by (induction xs arbitrary: pm) (auto simp: price_map_inv_update)

lemma price_map_inv_price_map_of: "price_map_inv (price_map_of xs)"
  unfolding price_map_of_def by (rule price_map_inv_foldl) (simp add: price_map_inv_def)

lemma price_map_inv_apply_levels:
  "price_map_inv pm \<Longrightarrow> price_map_inv (apply_levels ups pm)"
  by (induction ups pm rule: apply_levels.induct)
     (auto simp: price_map_inv_update price_map_inv_delete)

lemma price_map_values: "price_map_inv pm \<Longrightarrow> map price (map snd pm) = map fst pm"
  unfolding price_map_inv_def by (induction pm) auto

lemma price_map_values_distinct:
  assumes "price_map_inv pm"
  shows "distinct (map price (map snd pm))"
proof -
  have "distinct (map fst pm)" using assms by (simp add: price_map_inv_def)
  with price_map_values [OF assms] show ?thesis by metis
qed

lemma distinct_map_sort_key: "distinct (map f (sort_key f xs)) = distinct (map f xs)"
proof -
  have "mset (map f (sort_key f xs)) = mset (map f xs)" by simp
  then show ?thesis by (metis mset_eq_imp_distinct_iff)
qed

lemma strict_sort_key:
  assumes "distinct (map f xs)"
  shows "sorted_wrt (<) (map f (sort_key f xs))"
proof -
  have "sorted (map f (sort_key f xs))" by simp
  moreover have "distinct (map f (sort_key f xs))"
    using assms by (metis distinct_map_sort_key)
  ultimately show ?thesis by (metis strict_sorted_iff)
qed

lemma py_sorted_ascending:
  assumes "distinct (map f xs)"
  shows "sorted_wrt (\<lambda>x y. f x < f y) (py_sorted f False xs)"
  using strict_sort_key [OF assms] by (simp add: py_sorted_def sorted_wrt_map)

lemma py_sorted_descending:
  assumes "distinct (map f xs)"
  shows "sorted_wrt (\<lambda>x y. f x > f y) (py_sorted f True xs)"
proof -
  have "distinct (map f (rev xs))" using assms by (metis distinct_rev rev_map)
  then have "sorted_wrt (\<lambda>x y. f x < f y) (sort_key f (rev xs))"
    using strict_sort_key [of f "rev xs"] by (simp add: sorted_wrt_map)
  then show ?thesis by (simp add: py_sorted_def sorted_wrt_rev)
qed

lemma sorted_wrt_py_take: "sorted_wrt P xs \<Longrightarrow> sorted_wrt P (py_take d xs)"
  by (simp add: py_take_def)

lemma apply_update_descending: "strictly_descending (apply_update ups levels True)"
  unfolding apply_update_def strictly_descending_def
  by (intro py_sorted_descending price_map_values_distinct price_map_inv_apply_levels
        price_map_inv_price_map_of)

lemma apply_update_ascending: "strictly_ascending (apply_update ups levels False)"
  unfolding apply_update_def strictly_ascending_def
  by (intro py_sorted_ascending price_map_values_distinct price_map_inv_apply_levels
        price_map_inv_price_map_of)

lemma strictly_descending_distinct: "strictly_descending xs \<Longrightarrow> distinct (map price xs)"
proof -
  assume "strictly_descending xs"
  then have "sorted_wrt (\<lambda>x y. x > y) (map price xs)"
    by (simp add: strictly_descending_def sorted_wrt_map)
  then have "sorted_wrt (\<lambda>x y. x \<noteq> y) (map price xs)"
    by (rule sorted_wrt_mono_rel [rotated]) auto
  then show ?thesis by (simp only: distinct_conv_nth sorted_wrt_iff_nth_less) (metis nat_neq_iff)
qed

lemma strictly_ascending_distinct: "strictly_ascending xs \<Longrightarrow> distinct (map price xs)"
proof -
  assume "strictly_ascending xs"
  then have "sorted_wrt (<) (map price xs)"
    by (simp add: strictly_ascending_def sorted_wrt_map)
  then show ?thesis by (metis strict_sorted_iff)
qed

lemma applied_sides_ordered:
  "strictly_descending (bids (orderbook (applied m b a u now)))"
  "strictly_ascending (asks (orderbook (applied m b a u now)))"
  using apply_update_descending [of b "bids (orderbook m)"]
        apply_update_ascending [of a "asks (orderbook m)"]
  by (simp_all add: applied_def strictly_descending_def strictly_ascending_def sorted_wrt_py_take)

subsection \<open>The ordering policy\<close>

text \<open>
  Claim C1, as the code has it. On a manager that a collector holds (reached through the
  constructor, \<open>initialize\<close> and \<open>process_update\<close>) and that is initialized, every
  event that satisfies the ordering predicate is applied, and \<^verbatim>\<open>last_update_id\<close>
  after the call is strictly greater than before; the manager after the call is again
  such a manager, so this holds of every event of a sequence, and the ids of the
  applied events increase strictly. The call answers true whenever the
  updated book has an empty side or its best bid is below its best ask, and, the prices
  being positive as in the data model, it answers false whenever the updated book has
  its best bid at or above its best ask. So not every such event is accepted.
\<close>

theorem ordered_event_applied_and_id_grows:
  assumes "reachable m" and "initialized m"
    and "ev_u event = Some u" and "ev_b event = Some b" and "ev_a event = Some a"
    and "ordering_predicate m (field_U event u) u (field_pu m event)"
  shows "snd (process_update m event now) = applied m b a u now
       \<and> last_update_id (orderbook m)
           < last_update_id (orderbook (snd (process_update m event now)))
       \<and> reachable (snd (process_update m event now))
       \<and> initialized (snd (process_update m event now))
       \<and> ((\<forall>bb ba. best_bid (orderbook (applied m b a u now)) = Some bb
                  \<and> best_ask (orderbook (applied m b a u now)) = Some ba \<longrightarrow> bb < ba)
            \<longrightarrow> fst (process_update m event now) = Inr True)
       \<and> (positive_prices (orderbook (applied m b a u now))
            \<and> best_bid (orderbook (applied m b a u now)) = Some bb'
            \<and> best_ask (orderbook (applied m b a u now)) = Some ba' \<and> ba' \<le> bb'
            \<longrightarrow> fst (process_update m event now) = Inr False)"
proof -
  have eq: "last_u m = last_update_id (orderbook m)"
    using assms(1) by (rule reachable_counters_agree)
  have res: "process_update m event now =
      (Inr (\<not> crossed (orderbook (applied m b a u now))), applied m b a u now)"
    using assms(2-6) by (rule process_update_applies)
  have "last_update_id (orderbook m) < u"
    using assms(6) eq by (simp add: ordering_predicate_def)
  then have grow: "last_update_id (orderbook m)
      < last_update_id (orderbook (snd (process_update m event now)))"
    by (simp add: res applied_def)
  have again: "reachable (snd (process_update m event now))"
    using assms(1) by (rule reachable.updated)
  have init: "initialized (snd (process_update m event now))"
    using assms(2) by (simp add: res applied_def)
  have acc: "fst (process_update m event now) = Inr True"
    if "\<forall>bb ba. best_bid (orderbook (applied m b a u now)) = Some bb
          \<and> best_ask (orderbook (applied m b a u now)) = Some ba \<longrightarrow> bb < ba"
  proof -
    have "\<not> crossed (orderbook (applied m b a u now))"
      using that by (auto simp: crossed_def split: option.splits)
    then show ?thesis by (simp add: res)
  qed
  have rej: "fst (process_update m event now) = Inr False"
    if "positive_prices (orderbook (applied m b a u now))
            \<and> best_bid (orderbook (applied m b a u now)) = Some bb'
            \<and> best_ask (orderbook (applied m b a u now)) = Some ba' \<and> ba' \<le> bb'"
  proof -
    from that have "crossed (orderbook (applied m b a u now)) = (ba' \<le> bb')"
      by (intro crossed_positive) simp_all
    with that show ?thesis by (simp add: res)
  qed
  from res grow again init acc rej show ?thesis by simp
qed

lemmas book_eval =
  book0_def snapshot0_def new_manager_def initialize_def process_update_def Let_def
  apply_update_def price_map_of_def py_sorted_def py_take_def crossed_def best_bid_def
  best_ask_def truthy_def applied_def ordering_predicate_def field_U_def field_pu_def

lemma reachable_book0: "reachable book0"
  unfolding book0_def by (intro reachable.intros)

theorem ordered_event_applied_and_id_grows_witness:
  "reachable book0 \<and> initialized book0
   \<and> ordering_predicate book0 (field_U event1 103) 103 (field_pu book0 event1)
   \<and> last_update_id (orderbook book0) = 100
   \<and> last_update_id (orderbook (snd (process_update book0 event1 1))) = 103
   \<and> bids (orderbook (snd (process_update book0 event1 1))) = [\<lparr>price = 10, quantity = 1\<rparr>]
   \<and> asks (orderbook (snd (process_update book0 event1 1)))
       = [\<lparr>price = 101 / 10, quantity = 3 / 2\<rparr>, \<lparr>price = 102 / 10, quantity = 1 / 2\<rparr>]
   \<and> fst (process_update book0 event1 1) = Inr True
   \<and> ordering_predicate book0 (field_U crossing_event 103) 103 (field_pu book0 crossing_event)
   \<and> bids (orderbook (snd (process_update book0 crossing_event 1)))
       = [\<lparr>price = 11, quantity = 1\<rparr>, \<lparr>price = 10, quantity = 1\<rparr>,
          \<lparr>price = 99 / 10, quantity = 2\<rparr>]
   \<and> asks (orderbook (snd (process_update book0 crossing_event 1)))
       = [\<lparr>price = 101 / 10, quantity = 3 / 2\<rparr>]
   \<and> last_update_id (orderbook (snd (process_update book0 crossing_event 1))) = 103
   \<and> fst (process_update book0 crossing_event 1) = Inr False"
proof -
  have i: "initialized book0" by (simp add: book_eval)
  have l: "last_update_id (orderbook book0) = 100" by (simp add: book_eval)
  have u: "ev_u event1 = Some 103" by (simp add: event1_def)
  have b: "ev_b event1 = Some [(99 / 10, 0)]" by (simp add: event1_def)
  have a: "ev_a event1 = Some [(102 / 10, 1 / 2)]" by (simp add: event1_def)
  have p: "ordering_predicate book0 (field_U event1 103) 103 (field_pu book0 event1)"
    by (simp add: book_eval event1_def)
  let ?m1 = "applied book0 [(99 / 10, 0)] [(102 / 10, 1 / 2)] 103 1"
  have bs: "bids (orderbook ?m1) = [\<lparr>price = 10, quantity = 1\<rparr>]"
    by (simp add: book_eval)
  have as: "asks (orderbook ?m1)
      = [\<lparr>price = 101 / 10, quantity = 3 / 2\<rparr>, \<lparr>price = 102 / 10, quantity = 1 / 2\<rparr>]"
    by (simp add: book_eval)
  have c: "\<forall>bb ba. best_bid (orderbook ?m1) = Some bb \<and> best_ask (orderbook ?m1) = Some ba
          \<longrightarrow> bb < ba"
    unfolding best_bid_def best_ask_def bs as by simp
  have l1: "last_update_id (orderbook ?m1) = 103" by (simp add: applied_def)
  from ordered_event_applied_and_id_grows [OF reachable_book0 i u b a p, of 1] c
  have r1: "snd (process_update book0 event1 1) = ?m1"
    and f1: "fst (process_update book0 event1 1) = Inr True"
    by simp_all
  have u2: "ev_u crossing_event = Some 103" by (simp add: crossing_event_def)
  have b2: "ev_b crossing_event = Some [(11, 1)]" by (simp add: crossing_event_def)
  have a2: "ev_a crossing_event = Some []" by (simp add: crossing_event_def)
  have p2: "ordering_predicate book0 (field_U crossing_event 103) 103
      (field_pu book0 crossing_event)"
    by (simp add: book_eval crossing_event_def)
  let ?m2 = "applied book0 [(11, 1)] [] 103 1"
  have bs2: "bids (orderbook ?m2)
      = [\<lparr>price = 11, quantity = 1\<rparr>, \<lparr>price = 10, quantity = 1\<rparr>,
         \<lparr>price = 99 / 10, quantity = 2\<rparr>]"
    by (simp add: book_eval)
  have as2: "asks (orderbook ?m2) = [\<lparr>price = 101 / 10, quantity = 3 / 2\<rparr>]"
    by (simp add: book_eval)
  have c2: "positive_prices (orderbook ?m2)
      \<and> best_bid (orderbook ?m2) = Some 11
      \<and> best_ask (orderbook ?m2) = Some (101 / 10) \<and> (101 / 10 :: real) \<le> 11"
    unfolding positive_prices_def best_bid_def best_ask_def bs2 as2 by simp
  have l2: "last_update_id (orderbook ?m2) = 103" by (simp add: applied_def)
  from ordered_event_applied_and_id_grows
         [OF reachable_book0 i u2 b2 a2 p2, of 1 11 "101 / 10"] c2
  have r2: "snd (process_update book0 crossing_event 1) = ?m2"
    and f2: "fst (process_update book0 crossing_event 1) = Inr False"
    by simp_all
  from reachable_book0 i p l l1 bs as f1 p2 bs2 as2 l2 f2 show ?thesis
    unfolding r1 r2 by simp
qed

text \<open>
  Claim C1 as stated fails: \<open>crossing_event\<close> follows the snapshot in sequence
  (\<open>U = 101 \<le> 101 \<le> 103 = u\<close>) and is answered false, because its bid at 11 lies above
  the ask at 10.1.
\<close>

theorem ordered_event_refused:
  "initialized book0
   \<and> ordering_predicate book0 (field_U crossing_event 103) 103 (field_pu book0 crossing_event)
   \<and> ev_u crossing_event = Some 103
   \<and> fst (process_update book0 crossing_event 1) = Inr False"
  by (simp add: book_eval crossing_event_def)

text \<open>
  On a manager that a collector holds the two counters are equal, so \<open>process_update\<close>
  always takes the branch that compares \<^verbatim>\<open>U\<close> and \<^verbatim>\<open>u\<close> and never reads \<^verbatim>\<open>pu\<close>:
  whatever \<^verbatim>\<open>pu\<close> an event carries, it is applied if \<open>U \<le> _last_u + 1 \<le> u\<close>.
\<close>

lemma pu_is_never_compared:
  assumes "reachable m" and "initialized m"
    and "ev_u event = Some u" and "ev_b event = Some b" and "ev_a event = Some a"
    and "field_U event u \<le> last_u m + 1" and "last_u m + 1 \<le> u"
  shows "snd (process_update m event now) = applied m b a u now"
proof -
  have "last_u m = last_update_id (orderbook m)"
    using assms(1) by (rule reachable_counters_agree)
  then have "ordering_predicate m (field_U event u) u (field_pu m event)"
    using assms(6,7) by (simp add: ordering_predicate_def)
  from process_update_applies [OF assms(2-5) this, of now] show ?thesis by simp
qed

text \<open>
  Claim C2 says that an event which is not the first after the snapshot and whose
  \<^verbatim>\<open>pu\<close> differs from the stored \<^verbatim>\<open>_last_u\<close> is answered false with the book
  unchanged. The code does not do that. After the snapshot with id 100 and the accepted
  first event (\<open>U = 101\<close>, \<open>u = 103\<close>), \<^verbatim>\<open>_last_u\<close> is 103; the next event carries
  \<open>pu = 102\<close>, \<open>U = 104\<close>, \<open>u = 106\<close> and a new bid at 9.8. It is answered true and
  applied: the bid is in the book and \<^verbatim>\<open>last_update_id\<close> is 106. (An event that fails
  the test the code does make, \<open>U \<le> _last_u + 1 \<le> u\<close>, is answered false with the
  manager unchanged, by \<open>process_update_rejects\<close>.)
\<close>

theorem mismatched_pu_is_accepted:
  "fst (process_update book0 event1 1) = Inr True
   \<and> last_u (snd (process_update book0 event1 1)) = 103
   \<and> last_update_id (orderbook (snd (process_update book0 event1 1))) = 103
   \<and> bids (orderbook (snd (process_update book0 event1 1))) = [\<lparr>price = 10, quantity = 1\<rparr>]
   \<and> ev_pu stale_event = Some 102
   \<and> fst (process_update (snd (process_update book0 event1 1)) stale_event 2) = Inr True
   \<and> bids (orderbook (snd (process_update (snd (process_update book0 event1 1)) stale_event 2)))
       = [\<lparr>price = 10, quantity = 1\<rparr>, \<lparr>price = 98 / 10, quantity = 5\<rparr>]
   \<and> last_update_id
        (orderbook (snd (process_update (snd (process_update book0 event1 1)) stale_event 2)))
       = 106"
proof -
  have 1: "process_update book0 event1 1
      = (Inr True, applied book0 [(99 / 10, 0)] [(102 / 10, 1 / 2)] 103 1)"
    by (simp add: book_eval event1_def)
  have 2: "applied book0 [(99 / 10, 0)] [(102 / 10, 1 / 2)] 103 1
      = \<lparr>depth = 20,
         orderbook = \<lparr>symbol = ''BTCUSDT'', bids = [\<lparr>price = 10, quantity = 1\<rparr>],
           asks = [\<lparr>price = 101 / 10, quantity = 3 / 2\<rparr>, \<lparr>price = 102 / 10, quantity = 1 / 2\<rparr>],
           last_update_id = 103, timestamp = 1\<rparr>,
         last_u = 103, initialized = True\<rparr>"
    by (simp add: book_eval)
  show ?thesis
    unfolding 1 snd_conv fst_conv 2
    by (simp add: stale_event_def process_update_def Let_def apply_update_def price_map_of_def
          py_sorted_def py_take_def crossed_def best_bid_def best_ask_def truthy_def)
qed

text \<open>
  Claim C3. \<open>process_update\<close> applies an event exactly when the ordering predicate
  holds: if it holds, the manager after the call is the one with the event applied; if it
  fails, the call answers false and nothing is applied. The predicate is
  \<open>U \<le> _last_u + 1 \<le> u\<close> when \<^verbatim>\<open>_last_u\<close> equals \<^verbatim>\<open>last_update_id\<close>, and
  \<open>pu = _last_u\<close> otherwise.
\<close>

theorem applied_iff_ordering_predicate:
  assumes "initialized m"
    and "ev_U event = Some U" and "ev_u event = Some u" and "ev_pu event = Some pu"
    and "ev_b event = Some b" and "ev_a event = Some a"
  shows "(ordering_predicate m U u pu
            \<longrightarrow> snd (process_update m event now) = applied m b a u now)
       \<and> (\<not> ordering_predicate m U u pu
            \<longrightarrow> process_update m event now = (Inr False, m))
       \<and> ordering_predicate m U u pu
           = (if last_u m = last_update_id (orderbook m)
              then U \<le> last_u m + 1 \<and> last_u m + 1 \<le> u else pu = last_u m)"
proof -
  have f: "field_U event u = U" "field_pu m event = pu"
    using assms by (simp_all add: field_U_def field_pu_def)
  have "snd (process_update m event now) = applied m b a u now"
    if "ordering_predicate m U u pu"
    using process_update_applies [OF assms(1,3,5,6), of now] that f by simp
  moreover have "process_update m event now = (Inr False, m)"
    if "\<not> ordering_predicate m U u pu"
    using process_update_rejects [OF assms(1,3), of now] that f by simp
  ultimately show ?thesis by (simp add: ordering_predicate_def)
qed

theorem applied_iff_ordering_predicate_witness:
  "initialized book0
   \<and> ordering_predicate book0 101 103 100
   \<and> snd (process_update book0 event1 1) = applied book0 [(99 / 10, 0)] [(102 / 10, 1 / 2)] 103 1
   \<and> bids (orderbook (snd (process_update book0 event1 1))) = [\<lparr>price = 10, quantity = 1\<rparr>]
   \<and> \<not> ordering_predicate book0 105 107 104
   \<and> process_update book0 gap_event 1 = (Inr False, book0)"
proof -
  have i: "initialized book0" by (simp add: book_eval)
  have p: "ordering_predicate book0 101 103 100" by (simp add: book_eval)
  have q: "\<not> ordering_predicate book0 105 107 104" by (simp add: book_eval)
  have 1: "snd (process_update book0 event1 1) = applied book0 [(99 / 10, 0)] [(102 / 10, 1 / 2)] 103 1"
    using applied_iff_ordering_predicate [OF i, of event1 101 103 100
        "[(99 / 10, 0)]" "[(102 / 10, 1 / 2)]" 1] p
    by (simp add: event1_def)
  have 2: "process_update book0 gap_event 1 = (Inr False, book0)"
    using applied_iff_ordering_predicate [OF i, of gap_event 105 107 104 "[(99 / 10, 0)]" "[]" 1] q
    by (simp add: gap_event_def)
  have 3: "bids (orderbook (applied book0 [(99 / 10, 0)] [(102 / 10, 1 / 2)] 103 1))
            = [\<lparr>price = 10, quantity = 1\<rparr>]"
    by (simp add: book_eval)
  from i p q 1 2 3 show ?thesis by simp
qed

subsection \<open>The book after an update\<close>

text \<open>
  Claim C4. After every update that \<open>process_update\<close> answers with true, from whatever
  book it started, the bids are strictly descending in price, the asks strictly
  ascending, no price occurs twice on a side, and, the prices being positive as in the
  data model, the best bid is strictly below the best ask whenever both sides are
  non-empty. Since this holds for each accepted call from any manager, it holds after
  each call of any sequence of accepted updates that starts from a snapshot.
\<close>

theorem accepted_update_keeps_book_ordered:
  assumes "process_update m event now = (Inr True, m')"
  shows "strictly_descending (bids (orderbook m'))
       \<and> strictly_ascending (asks (orderbook m'))
       \<and> distinct (map price (bids (orderbook m')))
       \<and> distinct (map price (asks (orderbook m')))
       \<and> (positive_prices (orderbook m') \<longrightarrow>
            (\<forall>bb ba. best_bid (orderbook m') = Some bb \<and> best_ask (orderbook m') = Some ba
                      \<longrightarrow> bb < ba))"
proof -
  from process_update_True [OF assms]
  obtain b a u where m': "m' = applied m b a u now" and nc: "\<not> crossed (orderbook m')"
    by blast
  have d: "strictly_descending (bids (orderbook m'))"
    and s: "strictly_ascending (asks (orderbook m'))"
    unfolding m' by (rule applied_sides_ordered)+
  have "bb < ba"
    if "positive_prices (orderbook m')"
      and "best_bid (orderbook m') = Some bb" and "best_ask (orderbook m') = Some ba"
    for bb ba
    using crossed_positive [OF that] nc by simp
  with d s strictly_descending_distinct [OF d] strictly_ascending_distinct [OF s]
  show ?thesis by blast
qed

theorem accepted_update_keeps_book_ordered_witness:
  "process_update book0 event1 1
     = (Inr True, applied book0 [(99 / 10, 0)] [(102 / 10, 1 / 2)] 103 1)
   \<and> bids (orderbook (applied book0 [(99 / 10, 0)] [(102 / 10, 1 / 2)] 103 1))
       = [\<lparr>price = 10, quantity = 1\<rparr>]
   \<and> asks (orderbook (applied book0 [(99 / 10, 0)] [(102 / 10, 1 / 2)] 103 1))
       = [\<lparr>price = 101 / 10, quantity = 3 / 2\<rparr>, \<lparr>price = 102 / 10, quantity = 1 / 2\<rparr>]
   \<and> positive_prices (orderbook (applied book0 [(99 / 10, 0)] [(102 / 10, 1 / 2)] 103 1))
   \<and> strictly_descending (bids (orderbook (applied book0 [(99 / 10, 0)] [(102 / 10, 1 / 2)] 103 1)))
   \<and> strictly_ascending (asks (orderbook (applied book0 [(99 / 10, 0)] [(102 / 10, 1 / 2)] 103 1)))
   \<and> best_bid (orderbook (applied book0 [(99 / 10, 0)] [(102 / 10, 1 / 2)] 103 1)) = Some 10
   \<and> best_ask (orderbook (applied book0 [(99 / 10, 0)] [(102 / 10, 1 / 2)] 103 1)) = Some (101 / 10)
   \<and> (10 :: real) < 101 / 10"
proof -
  have r: "process_update book0 event1 1
      = (Inr True, applied book0 [(99 / 10, 0)] [(102 / 10, 1 / 2)] 103 1)"
    by (simp add: book_eval event1_def)
  have bs: "bids (orderbook (applied book0 [(99 / 10, 0)] [(102 / 10, 1 / 2)] 103 1))
       = [\<lparr>price = 10, quantity = 1\<rparr>]"
    by (simp add: book_eval)
  have as: "asks (orderbook (applied book0 [(99 / 10, 0)] [(102 / 10, 1 / 2)] 103 1))
       = [\<lparr>price = 101 / 10, quantity = 3 / 2\<rparr>, \<lparr>price = 102 / 10, quantity = 1 / 2\<rparr>]"
    by (simp add: book_eval)
  have pp: "positive_prices (orderbook (applied book0 [(99 / 10, 0)] [(102 / 10, 1 / 2)] 103 1))"
    unfolding positive_prices_def bs as by simp
  have bb: "best_bid (orderbook (applied book0 [(99 / 10, 0)] [(102 / 10, 1 / 2)] 103 1)) = Some 10"
    unfolding best_bid_def bs by simp
  have ba: "best_ask (orderbook (applied book0 [(99 / 10, 0)] [(102 / 10, 1 / 2)] 103 1)) = Some (101 / 10)"
    unfolding best_ask_def as by simp
  from accepted_update_keeps_book_ordered [OF r] pp bb ba
  have "(10 :: real) < 101 / 10" by blast
  with accepted_update_keeps_book_ordered [OF r] pp r bs as bb ba
  show ?thesis by blast
qed

text \<open>
  Outside the data model the comparison can be skipped: a best price of \<^verbatim>\<open>0.0\<close> is
  false in the truth test of \<open>process_update\<close>, so an update that leaves an ask at
  price zero below the best bid at 10 is still answered true.
\<close>

lemma zero_best_price_skips_comparison:
  "process_update book0 zero_ask_event 1 = (Inr True, applied book0 [] [(0, 1)] 103 1)
   \<and> best_bid (orderbook (applied book0 [] [(0, 1)] 103 1)) = Some 10
   \<and> best_ask (orderbook (applied book0 [] [(0, 1)] 103 1)) = Some 0"
  by (simp add: book_eval zero_ask_event_def)

text \<open>
  Claim C8. When an event passes the ordering predicate and its application leaves both
  sides non-empty with the best bid at or above the best ask (prices being positive as
  in the data model), \<open>process_update\<close> answers false and returns the manager with the
  event applied: the levels are merged in, both sides are cut to the depth (at most
  \<open>depth\<close> levels remain on each), and
  \<^verbatim>\<open>last_update_id\<close>, \<^verbatim>\<open>_last_u\<close> and the timestamp carry the event's values. A
  false answer therefore does not imply an unchanged book.
\<close>

theorem crossed_update_refused_after_mutation:
  assumes "initialized m"
    and "ev_u event = Some u" and "ev_b event = Some b" and "ev_a event = Some a"
    and "ordering_predicate m (field_U event u) u (field_pu m event)"
    and "positive_prices (orderbook (applied m b a u now))"
    and "best_bid (orderbook (applied m b a u now)) = Some bb"
    and "best_ask (orderbook (applied m b a u now)) = Some ba"
    and "ba \<le> bb"
  shows "process_update m event now = (Inr False, applied m b a u now)
       \<and> bids (orderbook (snd (process_update m event now)))
           = py_take (depth m) (apply_update b (bids (orderbook m)) True)
       \<and> asks (orderbook (snd (process_update m event now)))
           = py_take (depth m) (apply_update a (asks (orderbook m)) False)
       \<and> (0 \<le> depth m \<longrightarrow>
            length (bids (orderbook (snd (process_update m event now)))) \<le> nat (depth m)
          \<and> length (asks (orderbook (snd (process_update m event now)))) \<le> nat (depth m))
       \<and> last_update_id (orderbook (snd (process_update m event now))) = u
       \<and> last_u (snd (process_update m event now)) = u
       \<and> timestamp (orderbook (snd (process_update m event now))) = now"
proof -
  have "crossed (orderbook (applied m b a u now))"
    using crossed_positive [OF assms(6-8)] assms(9) by simp
  then have "process_update m event now = (Inr False, applied m b a u now)"
    using process_update_applies [OF assms(1-5), of now] by simp
  then show ?thesis by (simp add: applied_def py_take_def)
qed

theorem crossed_update_refused_after_mutation_witness:
  "initialized shallow_book \<and> depth shallow_book = 2
   \<and> bids (orderbook shallow_book)
       = [\<lparr>price = 10, quantity = 1\<rparr>, \<lparr>price = 99 / 10, quantity = 2\<rparr>]
   \<and> last_update_id (orderbook shallow_book) = 100
   \<and> ordering_predicate shallow_book (field_U crossing_event 103) 103
        (field_pu shallow_book crossing_event)
   \<and> positive_prices (orderbook (applied shallow_book [(11, 1)] [] 103 1))
   \<and> best_bid (orderbook (applied shallow_book [(11, 1)] [] 103 1)) = Some 11
   \<and> best_ask (orderbook (applied shallow_book [(11, 1)] [] 103 1)) = Some (101 / 10)
   \<and> fst (process_update shallow_book crossing_event 1) = Inr False
   \<and> bids (orderbook (snd (process_update shallow_book crossing_event 1)))
       = [\<lparr>price = 11, quantity = 1\<rparr>, \<lparr>price = 10, quantity = 1\<rparr>]
   \<and> asks (orderbook (snd (process_update shallow_book crossing_event 1)))
       = [\<lparr>price = 101 / 10, quantity = 3 / 2\<rparr>]
   \<and> last_update_id (orderbook (snd (process_update shallow_book crossing_event 1))) = 103
   \<and> last_u (snd (process_update shallow_book crossing_event 1)) = 103
   \<and> timestamp (orderbook (snd (process_update shallow_book crossing_event 1))) = 1
   \<and> snd (process_update shallow_book crossing_event 1) \<noteq> shallow_book"
proof -
  have i: "initialized shallow_book" and d: "depth shallow_book = 2"
    and b0: "bids (orderbook shallow_book)
       = [\<lparr>price = 10, quantity = 1\<rparr>, \<lparr>price = 99 / 10, quantity = 2\<rparr>]"
    and a0: "asks (orderbook shallow_book) = [\<lparr>price = 101 / 10, quantity = 3 / 2\<rparr>]"
    and l0: "last_update_id (orderbook shallow_book) = 100"
    by (simp_all add: shallow_book_def book_eval)
  have u: "ev_u crossing_event = Some 103" by (simp add: crossing_event_def)
  have b: "ev_b crossing_event = Some [(11, 1)]" by (simp add: crossing_event_def)
  have a: "ev_a crossing_event = Some []" by (simp add: crossing_event_def)
  have p: "ordering_predicate shallow_book (field_U crossing_event 103) 103
        (field_pu shallow_book crossing_event)"
    by (simp add: shallow_book_def book_eval crossing_event_def)
  have bs: "py_take (depth shallow_book) (apply_update [(11, 1)] (bids (orderbook shallow_book)) True)
      = [\<lparr>price = 11, quantity = 1\<rparr>, \<lparr>price = 10, quantity = 1\<rparr>]"
    unfolding d b0 by (simp add: book_eval)
  have as: "py_take (depth shallow_book) (apply_update [] (asks (orderbook shallow_book)) False)
      = [\<lparr>price = 101 / 10, quantity = 3 / 2\<rparr>]"
    unfolding d a0 by (simp add: book_eval)
  have bs': "bids (orderbook (applied shallow_book [(11, 1)] [] 103 1))
      = [\<lparr>price = 11, quantity = 1\<rparr>, \<lparr>price = 10, quantity = 1\<rparr>]"
    using bs by (simp add: applied_def)
  have as': "asks (orderbook (applied shallow_book [(11, 1)] [] 103 1))
      = [\<lparr>price = 101 / 10, quantity = 3 / 2\<rparr>]"
    using as by (simp add: applied_def)
  have pp: "positive_prices (orderbook (applied shallow_book [(11, 1)] [] 103 1))"
    unfolding positive_prices_def bs' as' by simp
  have bb: "best_bid (orderbook (applied shallow_book [(11, 1)] [] 103 1)) = Some 11"
    unfolding best_bid_def bs' by simp
  have ba: "best_ask (orderbook (applied shallow_book [(11, 1)] [] 103 1)) = Some (101 / 10)"
    unfolding best_ask_def as' by simp
  have le: "(101 / 10 :: real) \<le> 11" by simp
  note r = crossed_update_refused_after_mutation [OF i u b a p pp bb ba le]
  from r have f: "fst (process_update shallow_book crossing_event 1) = Inr False" by simp
  have rb: "bids (orderbook (snd (process_update shallow_book crossing_event 1)))
       = [\<lparr>price = 11, quantity = 1\<rparr>, \<lparr>price = 10, quantity = 1\<rparr>]"
    by (rule trans [OF conjunct1 [OF conjunct2 [OF r]] bs])
  have ra: "asks (orderbook (snd (process_update shallow_book crossing_event 1)))
       = [\<lparr>price = 101 / 10, quantity = 3 / 2\<rparr>]"
    by (rule trans [OF conjunct1 [OF conjunct2 [OF conjunct2 [OF r]]] as])
  from r have rl: "last_update_id (orderbook (snd (process_update shallow_book crossing_event 1))) = 103"
    and ru: "last_u (snd (process_update shallow_book crossing_event 1)) = 103"
    and rt: "timestamp (orderbook (snd (process_update shallow_book crossing_event 1))) = 1"
    by blast+
  from rl l0 have "last_update_id (orderbook (snd (process_update shallow_book crossing_event 1)))
      \<noteq> last_update_id (orderbook shallow_book)"
    by simp
  then have ne: "snd (process_update shallow_book crossing_event 1) \<noteq> shallow_book" by metis
  from i d b0 l0 p pp bb ba f rb ra rl ru rt ne show ?thesis by simp
qed

text \<open>
  Claim C9. On an initialized manager whose \<^verbatim>\<open>_last_u\<close> differs from
  \<^verbatim>\<open>last_update_id\<close>, an event without \<^verbatim>\<open>pu\<close> is treated as the same event with
  \<open>pu = _last_u\<close>: it passes the ordering check and is applied. When the two counters
  are equal, an event without \<^verbatim>\<open>U\<close> is checked as the same event with \<open>U = u\<close>.
  (The constructor, \<open>initialize\<close> and \<open>process_update\<close> keep the two counters equal,
  see \<open>reachable_counters_agree\<close>; the first part speaks of a manager whose
  \<^verbatim>\<open>_last_u\<close> has been assigned apart.)
\<close>

theorem missing_pu_and_U_take_defaults:
  assumes "initialized m"
    and "ev_u event = Some u" and "ev_b event = Some b" and "ev_a event = Some a"
  shows "(last_u m \<noteq> last_update_id (orderbook m) \<and> ev_pu event = None \<longrightarrow>
            ordering_predicate m (field_U event u) u (field_pu m event)
          \<and> snd (process_update m event now) = applied m b a u now
          \<and> process_update m event now
              = process_update m (event\<lparr>ev_pu := Some (last_u m)\<rparr>) now)
       \<and> (last_u m = last_update_id (orderbook m) \<and> ev_U event = None \<longrightarrow>
            field_U event u = u
          \<and> process_update m event now = process_update m (event\<lparr>ev_U := Some u\<rparr>) now
          \<and> (u = last_u m + 1 \<longrightarrow> snd (process_update m event now) = applied m b a u now)
          \<and> (u \<noteq> last_u m + 1 \<longrightarrow> process_update m event now = (Inr False, m)))"
proof -
  have 1: "ordering_predicate m (field_U event u) u (field_pu m event)
          \<and> snd (process_update m event now) = applied m b a u now
          \<and> process_update m event now
              = process_update m (event\<lparr>ev_pu := Some (last_u m)\<rparr>) now"
    if h: "last_u m \<noteq> last_update_id (orderbook m) \<and> ev_pu event = None"
  proof -
    have p: "ordering_predicate m (field_U event u) u (field_pu m event)"
      using h by (simp add: ordering_predicate_def field_pu_def)
    have "snd (process_update m event now) = applied m b a u now"
      using process_update_applies [OF assms p, of now] by simp
    moreover have "process_update m event now
        = process_update m (event\<lparr>ev_pu := Some (last_u m)\<rparr>) now"
      using h by (simp add: process_update_def Let_def split: option.splits)
    ultimately show ?thesis using p by simp
  qed
  have 2: "field_U event u = u
          \<and> process_update m event now = process_update m (event\<lparr>ev_U := Some u\<rparr>) now
          \<and> (u = last_u m + 1 \<longrightarrow> snd (process_update m event now) = applied m b a u now)
          \<and> (u \<noteq> last_u m + 1 \<longrightarrow> process_update m event now = (Inr False, m))"
    if h: "last_u m = last_update_id (orderbook m) \<and> ev_U event = None"
  proof -
    have f: "field_U event u = u" using h by (simp add: field_U_def)
    have e: "ordering_predicate m (field_U event u) u (field_pu m event) = (u = last_u m + 1)"
      using h f by (auto simp: ordering_predicate_def)
    have "snd (process_update m event now) = applied m b a u now" if "u = last_u m + 1"
      using process_update_applies [OF assms, of now] e that by simp
    moreover have "process_update m event now = (Inr False, m)" if "u \<noteq> last_u m + 1"
      using process_update_rejects [OF assms(1,2), of now] e that by simp
    moreover have "process_update m event now = process_update m (event\<lparr>ev_U := Some u\<rparr>) now"
      using h assms(2) by (simp add: process_update_def Let_def split: option.splits)
    ultimately show ?thesis using f by simp
  qed
  from 1 2 show ?thesis by blast
qed

theorem missing_pu_and_U_take_defaults_witness:
  "initialized split_book
   \<and> last_u split_book = 103 \<and> last_update_id (orderbook split_book) = 100
   \<and> ev_pu event_without_pu = None
   \<and> bids (orderbook split_book)
       = [\<lparr>price = 10, quantity = 1\<rparr>, \<lparr>price = 99 / 10, quantity = 2\<rparr>]
   \<and> bids (orderbook (snd (process_update split_book event_without_pu 1)))
       = [\<lparr>price = 10, quantity = 1\<rparr>]
   \<and> last_update_id (orderbook (snd (process_update split_book event_without_pu 1))) = 106
   \<and> last_u (snd (process_update split_book event_without_pu 1)) = 106
   \<and> initialized book0
   \<and> last_u book0 = 100 \<and> last_update_id (orderbook book0) = 100
   \<and> ev_U event_without_U = None
   \<and> process_update book0 event_without_U 1
       = process_update book0 (event_without_U\<lparr>ev_U := Some 101\<rparr>) 1
   \<and> bids (orderbook (snd (process_update book0 event_without_U 1)))
       = [\<lparr>price = 10, quantity = 1\<rparr>]
   \<and> last_update_id (orderbook (snd (process_update book0 event_without_U 1))) = 101"
proof -
  have i: "initialized split_book" by (simp add: split_book_def book_eval)
  have c: "last_u split_book = 103" "last_update_id (orderbook split_book) = 100"
    by (simp_all add: split_book_def book_eval)
  have b0: "bids (orderbook split_book)
       = [\<lparr>price = 10, quantity = 1\<rparr>, \<lparr>price = 99 / 10, quantity = 2\<rparr>]"
    by (simp add: split_book_def book_eval)
  have u: "ev_u event_without_pu = Some 106" by (simp add: event_without_pu_def)
  have b: "ev_b event_without_pu = Some [(99 / 10, 0)]" by (simp add: event_without_pu_def)
  have a: "ev_a event_without_pu = Some []" by (simp add: event_without_pu_def)
  have n: "ev_pu event_without_pu = None" by (simp add: event_without_pu_def)
  have h: "last_u split_book \<noteq> last_update_id (orderbook split_book)
           \<and> ev_pu event_without_pu = None"
    using c n by simp
  have i': "initialized book0" by (simp add: book_eval)
  have c': "last_u book0 = 100" "last_update_id (orderbook book0) = 100"
    by (simp_all add: book_eval)
  have u': "ev_u event_without_U = Some 101" by (simp add: event_without_U_def)
  have b': "ev_b event_without_U = Some [(99 / 10, 0)]" by (simp add: event_without_U_def)
  have a': "ev_a event_without_U = Some []" by (simp add: event_without_U_def)
  have n': "ev_U event_without_U = None" by (simp add: event_without_U_def)
  have h': "last_u book0 = last_update_id (orderbook book0) \<and> ev_U event_without_U = None"
    using c' n' by simp
  have s: "101 = last_u book0 + 1" using c' by simp
  from missing_pu_and_U_take_defaults [OF i u b a, of 1] h
  have 1: "snd (process_update split_book event_without_pu 1)
       = applied split_book [(99 / 10, 0)] [] 106 1"
    by blast
  from missing_pu_and_U_take_defaults [OF i' u' b' a', of 1] h' s
  have 2: "process_update book0 event_without_U 1
       = process_update book0 (event_without_U\<lparr>ev_U := Some 101\<rparr>) 1"
    and 3: "snd (process_update book0 event_without_U 1) = applied book0 [(99 / 10, 0)] [] 101 1"
    by blast+
  have 4: "bids (orderbook (applied split_book [(99 / 10, 0)] [] 106 1))
       = [\<lparr>price = 10, quantity = 1\<rparr>]"
    by (simp add: split_book_def book_eval)
  have 5: "bids (orderbook (applied book0 [(99 / 10, 0)] [] 101 1))
       = [\<lparr>price = 10, quantity = 1\<rparr>]"
    by (simp add: book_eval)
  have 6: "last_update_id (orderbook (applied split_book [(99 / 10, 0)] [] 106 1)) = 106"
    "last_u (applied split_book [(99 / 10, 0)] [] 106 1) = 106"
    "last_update_id (orderbook (applied book0 [(99 / 10, 0)] [] 101 1)) = 101"
    by (simp_all add: applied_def)
  from i c n b0 i' c' n' 2 4 5 6 show ?thesis unfolding 1 3 by simp
qed

section \<open>Properties of the wall tracker\<close>

subsection \<open>One level\<close>

lemma walls_inv_update:
  assumes "walls_inv t" and "key = (wall_price wall, side wall)"
  shows "walls_inv (t\<lparr>walls := AList.update key wall (walls t)\<rparr>)"
proof -
  have "distinct (map fst (AList.update key wall (walls t)))"
    using assms(1) by (simp add: walls_inv_def distinct_update)
  moreover have "list_all (\<lambda>(key, wall). key = (wall_price wall, side wall))
      (AList.update key wall ws)"
    if "list_all (\<lambda>(key, wall). key = (wall_price wall, side wall)) ws" for ws
    using that assms(2) by (induction ws) auto
  ultimately show ?thesis using assms(1) by (simp add: walls_inv_def)
qed

lemma walls_inv_lookup:
  assumes "walls_inv t" and "map_of (walls t) key = Some wall"
  shows "key = (wall_price wall, side wall)"
proof -
  have "(key, wall) \<in> set (walls t)" using assms(2) by (rule map_of_SomeD)
  then show ?thesis using assms(1) by (auto simp: walls_inv_def list_all_iff)
qed

text \<open>Below the threshold the loop body does nothing.\<close>

lemma process_level_below:
  "notional F level < threshold t \<Longrightarrow> process_level F t level s cp now = (Inr [], t)"
  by (simp add: process_level_def Let_def)

text \<open>An untracked level at or above the threshold becomes a wall.\<close>

lemma process_level_new:
  assumes "threshold t \<le> notional F level" and "map_of (walls t) (price level, s) = None"
  shows "process_level F t level s cp now =
     (Inr [\<lparr>ev_type = NEW_WALL, ev_wall = new_wall (price level) s (quantity level) now,
            ev_reason = None\<rparr>],
      t\<lparr>walls := AList.update (price level, s)
                   (new_wall (price level) s (quantity level) now) (walls t)\<rparr>)"
  using assms by (simp add: process_level_def Let_def)

text \<open>
  A tracked level at or above the threshold, when the mid price is absent or the level's
  price is not zero, is refreshed as the specification describes.
\<close>

lemma process_level_tracked:
  assumes "threshold t \<le> notional F level"
    and "map_of (walls t) (price level, s) = Some wall"
    and "wall_price wall = price level"
    and "cp = None \<or> (\<exists>c. cp = Some c \<and> c \<noteq> 0 \<and> price level \<noteq> 0)"
  shows "process_level F t level s cp now =
     (Inr (if replenishes F wall (quantity level)
           then [\<lparr>ev_type = WALL_REPLENISH,
                  ev_wall = wall\<lparr>replenish_count := replenish_count wall + 1\<rparr>,
                  ev_reason = None\<rparr>]
           else []),
      t\<lparr>walls := AList.update (price level, s)
                   (observed F wall (quantity level) cp now) (walls t)\<rparr>)"
  using assms
  by (auto simp: process_level_def Let_def replenishes_def observed_def tests_def truthy_def)

lemma process_level_frame:
  assumes "process_level F t level s cp now = (res, t1)"
  shows "threshold t1 = threshold t"
    and "key \<noteq> (price level, s) \<Longrightarrow> map_of (walls t1) key = map_of (walls t) key"
  using assms
  by (auto simp: process_level_def Let_def update_conv' split: if_splits option.splits)

lemma process_level_keeps_tracked:
  assumes "process_level F t level s cp now = (res, t1)" and "map_of (walls t) key \<noteq> None"
  shows "map_of (walls t1) key \<noteq> None"
  using assms
  by (auto simp: process_level_def Let_def update_conv' split: if_splits option.splits)

lemma process_level_inv:
  assumes "process_level F t level s cp now = (res, t1)" and "walls_inv t"
  shows "walls_inv t1"
proof (cases "threshold t \<le> notional F level")
  case False
  then show ?thesis using assms by (simp add: process_level_def Let_def)
next
  case True
  show ?thesis
  proof (cases "map_of (walls t) (price level, s)")
    case None
    have "(price level, s) = (wall_price (new_wall (price level) s (quantity level) now),
        side (new_wall (price level) s (quantity level) now))"
      by (simp add: new_wall_def)
    from walls_inv_update [OF assms(2) this] assms(1) True None
    show ?thesis by (simp add: process_level_def Let_def)
  next
    case (Some wall)
    have k: "(price level, s) = (wall_price wall, side wall)"
      using walls_inv_lookup [OF assms(2) Some] .
    have "walls_inv (t\<lparr>walls := AList.update (price level, s) w' (walls t)\<rparr>)"
      if "wall_price w' = wall_price wall" and "side w' = side wall" for w'
      using walls_inv_update [OF assms(2), of "(price level, s)" w'] k that by simp
    then show ?thesis
      using assms(1) True Some
      by (auto simp: process_level_def Let_def split: if_splits)
  qed
qed

lemma process_level_event_keys:
  assumes "process_level F t level s cp now = (Inr events, t1)" and "walls_inv t"
    and "e \<in> set events"
  shows "event_key e = (price level, s)"
proof (cases "map_of (walls t) (price level, s)")
  case None
  then show ?thesis
    using assms(1,3)
    by (auto simp: process_level_def Let_def event_key_def new_wall_def split: if_splits)
next
  case (Some wall)
  have "(price level, s) = (wall_price wall, side wall)"
    using walls_inv_lookup [OF assms(2) Some] .
  then show ?thesis
    using assms(1,3) Some
    by (auto simp: process_level_def Let_def event_key_def split: if_splits)
qed

text \<open>With positive prices the division of the loop body never fails.\<close>

lemma process_level_returns:
  assumes "0 < price level"
  shows "\<exists>events t1. process_level F t level s cp now = (Inr events, t1)"
  using assms
  by (auto simp: process_level_def Let_def split: option.splits)

subsection \<open>One side of the book\<close>

lemma process_side_Cons_Inr:
  assumes "process_side F t (level # levels) s cp now = (Inr events, t')"
  obtains e1 t1 e2 where "process_level F t level s cp now = (Inr e1, t1)"
    and "process_side F t1 levels s cp now = (Inr e2, t')" and "events = e1 @ e2"
  using assms by (auto split: prod.splits sum.splits)

lemma process_side_Cons_Inl:
  assumes "process_level F t level s cp now = (Inl e, t1)"
  shows "process_side F t (level # levels) s cp now = (Inl e, t1)"
  using assms by simp

lemma process_side_Cons_state:
  assumes "process_level F t level s cp now = (Inr e1, t1)"
    and "process_side F t1 levels s cp now = (r2, t2)"
  shows "snd (process_side F t (level # levels) s cp now) = t2"
  using assms by (cases r2) simp_all

lemma process_side_threshold:
  assumes "process_side F t levels s cp now = (res, t')"
  shows "threshold t' = threshold t"
  using assms
proof (induction levels arbitrary: t res t')
  case Nil
  then show ?case by simp
next
  case (Cons level levels)
  obtain r1 t1 where l: "process_level F t level s cp now = (r1, t1)"
    by (cases "process_level F t level s cp now")
  have th1: "threshold t1 = threshold t" using process_level_frame(1) [OF l] .
  show ?case
  proof (cases r1)
    case (Inl e)
    from l [unfolded Inl] have "process_side F t (level # levels) s cp now = (Inl e, t1)"
      by (rule process_side_Cons_Inl)
    with Cons.prems th1 show ?thesis by simp
  next
    case (Inr e1)
    obtain r2 t2 where r: "process_side F t1 levels s cp now = (r2, t2)"
      by (cases "process_side F t1 levels s cp now")
    from Cons.IH [OF r] have "threshold t2 = threshold t1" .
    moreover have "t' = t2"
      using process_side_Cons_state [OF l [unfolded Inr] r] Cons.prems by simp
    ultimately show ?thesis using th1 by simp
  qed
qed

lemma process_side_frame:
  assumes "process_side F t levels s cp now = (res, t')"
    and "snd key \<noteq> s \<or> fst key \<notin> price ` set levels"
  shows "map_of (walls t') key = map_of (walls t) key"
  using assms
proof (induction levels arbitrary: t res t')
  case Nil
  then show ?case by simp
next
  case (Cons level levels)
  obtain r1 t1 where l: "process_level F t level s cp now = (r1, t1)"
    by (cases "process_level F t level s cp now")
  have ne: "key \<noteq> (price level, s)" using Cons.prems(2) by auto
  have m1: "map_of (walls t1) key = map_of (walls t) key"
    using process_level_frame(2) [OF l ne] .
  show ?case
  proof (cases r1)
    case (Inl e)
    from l [unfolded Inl] have "process_side F t (level # levels) s cp now = (Inl e, t1)"
      by (rule process_side_Cons_Inl)
    with Cons.prems(1) m1 show ?thesis by simp
  next
    case (Inr e1)
    obtain r2 t2 where r: "process_side F t1 levels s cp now = (r2, t2)"
      by (cases "process_side F t1 levels s cp now")
    have "snd key \<noteq> s \<or> fst key \<notin> price ` set levels" using Cons.prems(2) by auto
    from Cons.IH [OF r this] have "map_of (walls t2) key = map_of (walls t1) key" .
    moreover have "t' = t2"
      using process_side_Cons_state [OF l [unfolded Inr] r] Cons.prems(1) by simp
    ultimately show ?thesis using m1 by simp
  qed
qed

lemma process_side_inv:
  assumes "process_side F t levels s cp now = (res, t')" and "walls_inv t"
  shows "walls_inv t'"
  using assms
proof (induction levels arbitrary: t res t')
  case Nil
  then show ?case by simp
next
  case (Cons level levels)
  obtain r1 t1 where l: "process_level F t level s cp now = (r1, t1)"
    by (cases "process_level F t level s cp now")
  have i1: "walls_inv t1" using process_level_inv [OF l Cons.prems(2)] .
  show ?case
  proof (cases r1)
    case (Inl e)
    from l [unfolded Inl] have "process_side F t (level # levels) s cp now = (Inl e, t1)"
      by (rule process_side_Cons_Inl)
    with Cons.prems(1) i1 show ?thesis by simp
  next
    case (Inr e1)
    obtain r2 t2 where r: "process_side F t1 levels s cp now = (r2, t2)"
      by (cases "process_side F t1 levels s cp now")
    have "t' = t2"
      using process_side_Cons_state [OF l [unfolded Inr] r] Cons.prems(1) by simp
    with Cons.IH [OF r i1] show ?thesis by simp
  qed
qed

lemma process_side_keeps_tracked:
  assumes "process_side F t levels s cp now = (res, t')" and "map_of (walls t) key \<noteq> None"
  shows "map_of (walls t') key \<noteq> None"
  using assms
proof (induction levels arbitrary: t res t')
  case Nil
  then show ?case by simp
next
  case (Cons level levels)
  obtain r1 t1 where l: "process_level F t level s cp now = (r1, t1)"
    by (cases "process_level F t level s cp now")
  have k1: "map_of (walls t1) key \<noteq> None"
    using process_level_keeps_tracked [OF l Cons.prems(2)] .
  show ?case
  proof (cases r1)
    case (Inl e)
    from l [unfolded Inl] have "process_side F t (level # levels) s cp now = (Inl e, t1)"
      by (rule process_side_Cons_Inl)
    with Cons.prems(1) k1 show ?thesis by simp
  next
    case (Inr e1)
    obtain r2 t2 where r: "process_side F t1 levels s cp now = (r2, t2)"
      by (cases "process_side F t1 levels s cp now")
    have "t' = t2"
      using process_side_Cons_state [OF l [unfolded Inr] r] Cons.prems(1) by simp
    with Cons.IH [OF r k1] show ?thesis by simp
  qed
qed

lemma process_side_event_keys:
  assumes "process_side F t levels s cp now = (Inr events, t')" and "walls_inv t"
    and "e \<in> set events"
  shows "snd (event_key e) = s \<and> fst (event_key e) \<in> price ` set levels"
  using assms
proof (induction levels arbitrary: t events t')
  case Nil
  then show ?case by simp
next
  case (Cons level levels)
  from Cons.prems(1) obtain e1 t1 e2
    where l: "process_level F t level s cp now = (Inr e1, t1)"
      and r: "process_side F t1 levels s cp now = (Inr e2, t')" and ev: "events = e1 @ e2"
    by (rule process_side_Cons_Inr)
  have i1: "walls_inv t1" using process_level_inv [OF l Cons.prems(2)] .
  from Cons.prems(3) ev consider "e \<in> set e1" | "e \<in> set e2" by auto
  then show ?case
  proof cases
    case 1
    from process_level_event_keys [OF l Cons.prems(2) 1] show ?thesis by simp
  next
    case 2
    from Cons.IH [OF r i1 2] show ?thesis by simp
  qed
qed

lemma process_side_event_types:
  assumes "process_side F t levels s cp now = (Inr events, t')" and "e \<in> set events"
  shows "ev_type e \<noteq> WALL_REMOVED"
  using assms
proof (induction levels arbitrary: t events t')
  case Nil
  then show ?case by simp
next
  case (Cons level levels)
  from Cons.prems(1) obtain e1 t1 e2
    where l: "process_level F t level s cp now = (Inr e1, t1)"
      and r: "process_side F t1 levels s cp now = (Inr e2, t')" and ev: "events = e1 @ e2"
    by (rule process_side_Cons_Inr)
  from Cons.prems(2) ev consider "e \<in> set e1" | "e \<in> set e2" by auto
  then show ?case
  proof cases
    case 1
    with l show ?thesis
      by (auto simp: process_level_def Let_def split: if_splits option.splits)
  next
    case 2
    from Cons.IH [OF r 2] show ?thesis .
  qed
qed

lemma process_side_returns:
  assumes "list_all (\<lambda>l. 0 < price l) levels"
  shows "\<exists>events t'. process_side F t levels s cp now = (Inr events, t')"
  using assms
proof (induction levels arbitrary: t)
  case Nil
  show ?case by simp
next
  case (Cons level levels)
  from Cons.prems have "0 < price level" by simp
  from process_level_returns [OF this]
  obtain e1 t1 where l: "process_level F t level s cp now = (Inr e1, t1)" by blast
  from Cons.prems have "list_all (\<lambda>l. 0 < price l) levels" by simp
  from Cons.IH [OF this]
  obtain e2 t2 where "process_side F t1 levels s cp now = (Inr e2, t2)" by blast
  with l show ?case by simp
qed

text \<open>A key none of whose levels reaches the threshold is left alone by the pass.\<close>

lemma process_side_below:
  assumes "process_side F t levels s cp now = (Inr events, t')" and "walls_inv t"
    and "\<forall>l \<in> set levels. price l = p \<longrightarrow> notional F l < threshold t"
  shows "map_of (walls t') (p, s) = map_of (walls t) (p, s)
       \<and> filter (\<lambda>e. event_key e = (p, s)) events = []"
  using assms
proof (induction levels arbitrary: t events t')
  case Nil
  then show ?case by simp
next
  case (Cons level levels)
  from Cons.prems(1) obtain e1 t1 e2
    where l: "process_level F t level s cp now = (Inr e1, t1)"
      and r: "process_side F t1 levels s cp now = (Inr e2, t')" and ev: "events = e1 @ e2"
    by (rule process_side_Cons_Inr)
  have i1: "walls_inv t1" using process_level_inv [OF l Cons.prems(2)] .
  have th1: "threshold t1 = threshold t" using process_level_frame(1) [OF l] .
  have rest: "\<forall>l \<in> set levels. price l = p \<longrightarrow> notional F l < threshold t1"
    using Cons.prems(3) th1 by simp
  note IH = Cons.IH [OF r i1 rest]
  show ?case
  proof (cases "price level = p")
    case True
    then have "notional F level < threshold t" using Cons.prems(3) by simp
    from process_level_below [OF this, of s cp now] l have "e1 = []" and "t1 = t" by simp_all
    with IH ev show ?thesis by simp
  next
    case False
    then have ne: "(p, s) \<noteq> (price level, s)" by simp
    have "map_of (walls t1) (p, s) = map_of (walls t) (p, s)"
      using process_level_frame(2) [OF l ne] .
    moreover have "filter (\<lambda>e. event_key e = (p, s)) e1 = []"
      using process_level_event_keys [OF l Cons.prems(2)] ne by (auto simp: filter_empty_conv)
    ultimately show ?thesis using IH ev by simp
  qed
qed

lemma events_for_append:
  "events_for ty key (xs @ ys) = events_for ty key xs @ events_for ty key ys"
  by (simp add: events_for_def)

lemma events_for_other_key:
  assumes "\<forall>e \<in> set events. event_key e \<noteq> key"
  shows "events_for ty key events = []"
  using assms by (auto simp: events_for_def filter_empty_conv)

lemma events_for_other_type:
  assumes "\<forall>e \<in> set events. ev_type e \<noteq> ty"
  shows "events_for ty key events = []"
  using assms by (auto simp: events_for_def filter_empty_conv)

lemma process_side_other_key:
  assumes "process_side F t levels s cp now = (Inr events, t')" and "walls_inv t"
    and "snd key \<noteq> s \<or> fst key \<notin> price ` set levels"
  shows "events_for ty key events = []"
proof (rule events_for_other_key, rule ballI)
  fix e assume "e \<in> set events"
  from process_side_event_keys [OF assms(1,2) this] assms(3)
  show "event_key e \<noteq> key" by auto
qed

text \<open>
  One pass emits \<^verbatim>\<open>NEW_WALL\<close> for a key once if the key was untracked and one of its
  levels reaches the threshold, and not at all otherwise.
\<close>

lemma process_side_new_walls:
  assumes "process_side F t levels s cp now = (Inr events, t')" and "walls_inv t"
  shows "length (events_for NEW_WALL (p, s) events) =
     (if map_of (walls t) (p, s) = None
         \<and> (\<exists>l \<in> set levels. price l = p \<and> threshold t \<le> notional F l)
      then 1 else 0)"
  using assms
proof (induction levels arbitrary: t events t')
  case Nil
  then show ?case by (simp add: events_for_def)
next
  case (Cons level levels)
  from Cons.prems(1) obtain e1 t1 e2
    where l: "process_level F t level s cp now = (Inr e1, t1)"
      and r: "process_side F t1 levels s cp now = (Inr e2, t')" and ev: "events = e1 @ e2"
    by (rule process_side_Cons_Inr)
  have i1: "walls_inv t1" using process_level_inv [OF l Cons.prems(2)] .
  have th1: "threshold t1 = threshold t" using process_level_frame(1) [OF l] .
  note IH = Cons.IH [OF r i1]
  have len: "length (events_for NEW_WALL (p, s) events)
      = length (events_for NEW_WALL (p, s) e1) + length (events_for NEW_WALL (p, s) e2)"
    by (simp add: ev events_for_append)
  show ?case
  proof (cases "price level = p")
    case False
    then have ne: "(p, s) \<noteq> (price level, s)" by simp
    have "map_of (walls t1) (p, s) = map_of (walls t) (p, s)"
      using process_level_frame(2) [OF l ne] .
    moreover have "events_for NEW_WALL (p, s) e1 = []"
      using process_level_event_keys [OF l Cons.prems(2)] ne
      by (intro events_for_other_key) auto
    ultimately show ?thesis using IH len th1 False by simp
  next
    case True
    show ?thesis
    proof (cases "threshold t \<le> notional F level")
      case False
      then have "notional F level < threshold t" by simp
      from process_level_below [OF this, of s cp now] l have "e1 = []" and "t1 = t"
        by simp_all
      with IH len False True show ?thesis by (auto simp: events_for_def)
    next
      case above: True
      show ?thesis
      proof (cases "map_of (walls t) (p, s)")
        case None
        from process_level_new [OF above, of s cp now] None True l
        have e1: "e1 = [\<lparr>ev_type = NEW_WALL,
                    ev_wall = new_wall (price level) s (quantity level) now, ev_reason = None\<rparr>]"
          and t1: "t1 = t\<lparr>walls := AList.update (price level, s)
                   (new_wall (price level) s (quantity level) now) (walls t)\<rparr>"
          by simp_all
        have "map_of (walls t1) (p, s) \<noteq> None" using t1 True by (simp add: update_conv')
        then have "length (events_for NEW_WALL (p, s) e2) = 0" using IH by simp
        moreover have "length (events_for NEW_WALL (p, s) e1) = 1"
          using e1 True by (simp add: events_for_def event_key_def new_wall_def)
        ultimately show ?thesis using len None above True by auto
      next
        case (Some wall)
        then have tr: "map_of (walls t) (price level, s) \<noteq> None" using True by simp
        have "map_of (walls t1) (price level, s) \<noteq> None"
          using process_level_keeps_tracked [OF l tr] .
        then have "length (events_for NEW_WALL (p, s) e2) = 0" using IH True by simp
        moreover have "\<forall>e \<in> set e1. ev_type e \<noteq> NEW_WALL"
          using l Some True
          by (auto simp: process_level_def Let_def split: if_splits)
        then have "events_for NEW_WALL (p, s) e1 = []" by (rule events_for_other_type)
        ultimately show ?thesis using len Some by simp
      qed
    qed
  qed
qed

text \<open>
  A tracked key whose level occurs once on the side, at or above the threshold, is
  refreshed by the pass as the specification describes.
\<close>

lemma process_side_tracked:
  assumes "process_side F t levels s cp now = (Inr events, t')" and "walls_inv t"
    and "distinct (map price levels)" and "l \<in> set levels"
    and "threshold t \<le> notional F l"
    and "map_of (walls t) (price l, s) = Some wall"
    and "cp = None \<or> (\<exists>c. cp = Some c \<and> c \<noteq> 0 \<and> price l \<noteq> 0)"
  shows "map_of (walls t') (price l, s) = Some (observed F wall (quantity l) cp now)
       \<and> events_for WALL_REPLENISH (price l, s) events =
           (if replenishes F wall (quantity l)
            then [\<lparr>ev_type = WALL_REPLENISH,
                   ev_wall = wall\<lparr>replenish_count := replenish_count wall + 1\<rparr>,
                   ev_reason = None\<rparr>]
            else [])"
  using assms
proof (induction levels arbitrary: t events t')
  case Nil
  then show ?case by simp
next
  case (Cons level levels)
  from Cons.prems(1) obtain e1 t1 e2
    where lv: "process_level F t level s cp now = (Inr e1, t1)"
      and r: "process_side F t1 levels s cp now = (Inr e2, t')" and ev: "events = e1 @ e2"
    by (rule process_side_Cons_Inr)
  have i1: "walls_inv t1" using process_level_inv [OF lv Cons.prems(2)] .
  have th1: "threshold t1 = threshold t" using process_level_frame(1) [OF lv] .
  have d: "distinct (map price levels)" and nin: "price level \<notin> price ` set levels"
    using Cons.prems(3) by simp_all
  show ?case
  proof (cases "level = l")
    case True
    have wp: "wall_price wall = price level"
      using walls_inv_lookup [OF Cons.prems(2,6)] True by simp
    from process_level_tracked [OF _ _ wp, of t F s cp now] Cons.prems(5,6,7) True lv
    have e1: "e1 = (if replenishes F wall (quantity l)
            then [\<lparr>ev_type = WALL_REPLENISH,
                   ev_wall = wall\<lparr>replenish_count := replenish_count wall + 1\<rparr>,
                   ev_reason = None\<rparr>]
            else [])"
      and t1: "t1 = t\<lparr>walls := AList.update (price l, s)
                   (observed F wall (quantity l) cp now) (walls t)\<rparr>"
      by simp_all
    have out: "snd (price l, s) \<noteq> s \<or> fst (price l, s) \<notin> price ` set levels"
      using nin True by simp
    have "map_of (walls t') (price l, s) = map_of (walls t1) (price l, s)"
      using process_side_frame [OF r out] .
    then have m: "map_of (walls t') (price l, s) = Some (observed F wall (quantity l) cp now)"
      using t1 by (simp add: update_conv')
    have "events_for WALL_REPLENISH (price l, s) e2 = []"
      using process_side_other_key [OF r i1 out] .
    moreover have "events_for WALL_REPLENISH (price l, s) e1 = e1"
      using e1 walls_inv_lookup [OF Cons.prems(2,6)]
      by (auto simp: events_for_def event_key_def)
    ultimately have "events_for WALL_REPLENISH (price l, s) events = e1"
      by (simp add: ev events_for_append)
    with m e1 show ?thesis by simp
  next
    case False
    then have lin: "l \<in> set levels" using Cons.prems(4) by simp
    then have pne: "price l \<noteq> price level" using nin by (metis imageI)
    then have ne: "(price l, s) \<noteq> (price level, s)" by simp
    have m1: "map_of (walls t1) (price l, s) = Some wall"
      using process_level_frame(2) [OF lv ne] Cons.prems(6) by simp
    have "events_for WALL_REPLENISH (price l, s) e1 = []"
      using process_level_event_keys [OF lv Cons.prems(2)] ne
      by (intro events_for_other_key) auto
    moreover note Cons.IH [OF r i1 d lin _ m1 Cons.prems(7)] Cons.prems(5) th1
    ultimately show ?thesis by (simp add: ev events_for_append)
  qed
qed

subsection \<open>Cleanup\<close>

lemma map_of_delete_all:
  "map_of (foldl (\<lambda>ws key. AList.delete key ws) ws ds) k
     = (if k \<in> set ds then None else map_of ws k)"
  by (induction ds arbitrary: ws) (auto simp: delete_conv')

lemma book_keys_iff:
  "(p, s) \<in> set (map (\<lambda>l. (price l, BID)) (bids ob) @ map (\<lambda>l. (price l, ASK)) (asks ob))
     \<longleftrightarrow> p \<in> price ` set (side_levels ob s)"
  by (cases s) (auto simp: side_levels_def)

lemma cleanup_lookup:
  assumes "cleanup_dead_walls t ob = (events, t')"
  shows "map_of (walls t') (p, s)
     = (if p \<in> price ` set (side_levels ob s) then map_of (walls t) (p, s) else None)"
proof -
  let ?A = "set (map (\<lambda>l. (price l, BID)) (bids ob) @ map (\<lambda>l. (price l, ASK)) (asks ob))"
  have w: "walls t' = foldl (\<lambda>ws key. AList.delete key ws) (walls t)
      (map fst (filter (\<lambda>(key, wall). key \<notin> ?A) (walls t)))"
    using assms by (auto simp: cleanup_dead_walls_def Let_def)
  have "map_of (walls t) (p, s) = None"
    if "(p, s) \<notin> fst ` set (filter (\<lambda>(key, wall). key \<notin> ?A) (walls t))" and "(p, s) \<notin> ?A"
  proof (rule ccontr)
    assume "map_of (walls t) (p, s) \<noteq> None"
    then obtain wall where "map_of (walls t) (p, s) = Some wall" by blast
    then have "((p, s), wall) \<in> set (walls t)" by (rule map_of_SomeD)
    with that(2) have "((p, s), wall) \<in> set (filter (\<lambda>(key, wall). key \<notin> ?A) (walls t))"
      by simp
    then have "(p, s) \<in> fst ` set (filter (\<lambda>(key, wall). key \<notin> ?A) (walls t))"
      by force
    with that(1) show False by simp
  qed
  moreover have "(p, s) \<notin> ?A"
    if "(p, s) \<in> fst ` set (filter (\<lambda>(key, wall). key \<notin> ?A) (walls t))"
    using that by auto
  ultimately show ?thesis
    unfolding w map_of_delete_all book_keys_iff [symmetric] by auto
qed

lemma removal_events_for_key:
  assumes "distinct (map fst ws)"
    and "list_all (\<lambda>(key, wall). key = (wall_price wall, side wall)) ws"
  shows "events_for WALL_REMOVED k
           (map (\<lambda>(key, wall). removal_event wall) (filter (\<lambda>(key, wall). key \<notin> A) ws))
     = (case map_of ws k of
          Some wall \<Rightarrow> if k \<notin> A then [removal_event wall] else []
        | None \<Rightarrow> [])"
  using assms
proof (induction ws)
  case Nil
  show ?case by (simp add: events_for_def)
next
  case (Cons x ws)
  obtain key wall where x: "x = (key, wall)" by (cases x)
  have kw: "key = (wall_price wall, side wall)" using Cons.prems(2) x by simp
  have IH: "events_for WALL_REMOVED k
           (map (\<lambda>(key, wall). removal_event wall) (filter (\<lambda>(key, wall). key \<notin> A) ws))
     = (case map_of ws k of
          Some wall \<Rightarrow> if k \<notin> A then [removal_event wall] else []
        | None \<Rightarrow> [])"
    using Cons.IH Cons.prems by simp
  have ek: "event_key (removal_event wall) = key"
    using kw by (simp add: event_key_def removal_event_def)
  have ty: "ev_type (removal_event wall) = WALL_REMOVED" by (simp add: removal_event_def)
  show ?case
  proof (cases "key = k")
    case True
    then have "k \<notin> fst ` set ws" using Cons.prems(1) x by auto
    then have none: "map_of ws k = None" by (simp add: map_of_eq_None_iff)
    with IH have "events_for WALL_REMOVED k
           (map (\<lambda>(key, wall). removal_event wall) (filter (\<lambda>(key, wall). key \<notin> A) ws)) = []"
      by simp
    then show ?thesis using True x ek ty by (simp add: events_for_def)
  next
    case False
    then show ?thesis using IH x ek by (simp add: events_for_def)
  qed
qed

lemma cleanup_events:
  assumes "cleanup_dead_walls t ob = (events, t')" and "walls_inv t"
  shows "events_for WALL_REMOVED (p, s) events
     = (case map_of (walls t) (p, s) of
          Some wall \<Rightarrow> if p \<notin> price ` set (side_levels ob s) then [removal_event wall] else []
        | None \<Rightarrow> [])"
proof -
  let ?A = "set (map (\<lambda>l. (price l, BID)) (bids ob) @ map (\<lambda>l. (price l, ASK)) (asks ob))"
  have e: "events = map (\<lambda>(key, wall). removal_event wall)
      (filter (\<lambda>(key, wall). key \<notin> ?A) (walls t))"
    using assms(1) by (auto simp: cleanup_dead_walls_def Let_def)
  from assms(2) have "distinct (map fst (walls t))"
    and "list_all (\<lambda>(key, wall). key = (wall_price wall, side wall)) (walls t)"
    by (simp_all add: walls_inv_def)
  from removal_events_for_key [OF this, of k ?A for k]
  show ?thesis unfolding e book_keys_iff [symmetric] by simp
qed

lemma cleanup_event_types:
  assumes "cleanup_dead_walls t ob = (events, t')" and "e \<in> set events"
  shows "ev_type e = WALL_REMOVED"
  using assms by (auto simp: cleanup_dead_walls_def Let_def removal_event_def)

lemma cleanup_event_keys:
  assumes "cleanup_dead_walls t ob = (events, t')" and "walls_inv t" and "e \<in> set events"
  shows "fst (event_key e) \<notin> price ` set (side_levels ob (snd (event_key e)))"
proof -
  let ?A = "set (map (\<lambda>l. (price l, BID)) (bids ob) @ map (\<lambda>l. (price l, ASK)) (asks ob))"
  from assms(1,3) obtain key wall
    where m: "(key, wall) \<in> set (walls t)" and n: "key \<notin> ?A" and e: "e = removal_event wall"
    by (auto simp: cleanup_dead_walls_def Let_def)
  from m assms(2) have "key = (wall_price wall, side wall)"
    by (auto simp: walls_inv_def list_all_iff)
  then have "event_key e = key" using e by (simp add: event_key_def removal_event_def)
  with n book_keys_iff [of "fst key" "snd key" ob] show ?thesis by simp
qed

subsection \<open>A whole update\<close>

lemma tracker_update_Inr:
  assumes "tracker_update F t ob now = (Inr events, t')"
  obtains e1 t1 e2 t2 e3
  where "process_side F t (bids ob) BID (mid_price F ob) now = (Inr e1, t1)"
    and "process_side F t1 (asks ob) ASK (mid_price F ob) now = (Inr e2, t2)"
    and "cleanup_dead_walls t2 ob = (e3, t')" and "events = e1 @ e2 @ e3"
  using assms
  by (auto simp: tracker_update_def Let_def split: prod.splits sum.splits)

text \<open>With positive prices an update raises nothing.\<close>

lemma tracker_update_returns:
  assumes "positive_prices ob"
  shows "\<exists>events t'. tracker_update F t ob now = (Inr events, t')"
proof -
  from assms have b: "list_all (\<lambda>l. 0 < price l) (bids ob)"
    and a: "list_all (\<lambda>l. 0 < price l) (asks ob)"
    by (simp_all add: positive_prices_def)
  from process_side_returns [OF b]
  obtain e1 t1 where 1: "process_side F t (bids ob) BID (mid_price F ob) now = (Inr e1, t1)"
    by blast
  from process_side_returns [OF a]
  obtain e2 t2 where 2: "process_side F t1 (asks ob) ASK (mid_price F ob) now = (Inr e2, t2)"
    by blast
  obtain e3 t3 where "cleanup_dead_walls t2 ob = (e3, t3)"
    by (cases "cleanup_dead_walls t2 ob")
  with 1 2 show ?thesis by (simp add: tracker_update_def)
qed

lemma cleanup_inv:
  assumes "cleanup_dead_walls t ob = (events, t')" and "walls_inv t"
  shows "walls_inv t'"
proof -
  have d: "distinct (map fst (foldl (\<lambda>ws key. AList.delete key ws) ws ds))"
    if "distinct (map fst ws)" for ws :: "((real \<times> WallSide) \<times> Wall) list" and ds
    using that by (induction ds arbitrary: ws) (simp_all add: distinct_delete)
  have s: "set (foldl (\<lambda>ws key. AList.delete key ws) ws ds) \<subseteq> set ws"
    for ws :: "((real \<times> WallSide) \<times> Wall) list" and ds
  proof (induction ds arbitrary: ws)
    case Nil
    show ?case by simp
  next
    case (Cons x ds)
    have "set (AList.delete x ws) \<subseteq> set ws" by (auto simp: AList.delete_eq)
    with Cons [of "AList.delete x ws"] show ?case by auto
  qed
  obtain ds where w: "walls t' = foldl (\<lambda>ws key. AList.delete key ws) (walls t) ds"
    using assms(1) by (auto simp: cleanup_dead_walls_def Let_def)
  from assms(2) have "distinct (map fst (walls t))"
    and l: "list_all (\<lambda>(key, wall). key = (wall_price wall, side wall)) (walls t)"
    by (simp_all add: walls_inv_def)
  from d [OF this(1), of ds] have "distinct (map fst (walls t'))" by (simp add: w)
  moreover have "list_all (\<lambda>(key, wall). key = (wall_price wall, side wall)) (walls t')"
    using l s [of "walls t" ds] unfolding w list_all_iff by blast
  ultimately show ?thesis by (simp add: walls_inv_def)
qed

text \<open>
  For one key, an update is the pass over the key's own side followed by the cleanup:
  the pass over the other side neither changes the key's wall nor emits for it.
\<close>

lemma own_pass:
  assumes "tracker_update F t ob now = (Inr events, t')" and "walls_inv t"
  obtains ts es ts' t2 e3
  where "process_side F ts (side_levels ob s) s (mid_price F ob) now = (Inr es, ts')"
    and "walls_inv ts" and "threshold ts = threshold t"
    and "map_of (walls ts) (p, s) = map_of (walls t) (p, s)"
    and "cleanup_dead_walls t2 ob = (e3, t')" and "walls_inv t2"
    and "map_of (walls t2) (p, s) = map_of (walls ts') (p, s)"
    and "\<And>ty. events_for ty (p, s) events = events_for ty (p, s) es @ events_for ty (p, s) e3"
proof -
  from assms(1) obtain e1 t1 e2 t2 e3
    where 1: "process_side F t (bids ob) BID (mid_price F ob) now = (Inr e1, t1)"
      and 2: "process_side F t1 (asks ob) ASK (mid_price F ob) now = (Inr e2, t2)"
      and 3: "cleanup_dead_walls t2 ob = (e3, t')" and ev: "events = e1 @ e2 @ e3"
    by (rule tracker_update_Inr)
  have i1: "walls_inv t1" using process_side_inv [OF 1 assms(2)] .
  have i2: "walls_inv t2" using process_side_inv [OF 2 i1] .
  have th1: "threshold t1 = threshold t" using process_side_threshold [OF 1] .
  show ?thesis
  proof (cases s)
    case BID
    have o: "snd (p, s) \<noteq> ASK \<or> fst (p, s) \<notin> price ` set (asks ob)" using BID by simp
    have m: "map_of (walls t2) (p, s) = map_of (walls t1) (p, s)"
      using process_side_frame [OF 2 o] .
    have e: "events_for ty (p, s) events = events_for ty (p, s) e1 @ events_for ty (p, s) e3"
      for ty
      using process_side_other_key [OF 2 i1 o, of ty] by (simp add: ev events_for_append)
    from 1 have "process_side F t (side_levels ob s) s (mid_price F ob) now = (Inr e1, t1)"
      using BID by (simp add: side_levels_def)
    from that [OF this assms(2) _ _ 3 i2 m e] show ?thesis by simp
  next
    case ASK
    have o: "snd (p, s) \<noteq> BID \<or> fst (p, s) \<notin> price ` set (bids ob)" using ASK by simp
    have m: "map_of (walls t1) (p, s) = map_of (walls t) (p, s)"
      using process_side_frame [OF 1 o] .
    have e: "events_for ty (p, s) events = events_for ty (p, s) e2 @ events_for ty (p, s) e3"
      for ty
      using process_side_other_key [OF 1 assms(2) o, of ty] by (simp add: ev events_for_append)
    from 2 have "process_side F t1 (side_levels ob s) s (mid_price F ob) now = (Inr e2, t2)"
      using ASK by (simp add: side_levels_def)
    from that [OF this i1 th1 m 3 i2 _ e] show ?thesis by simp
  qed
qed

lemma own_pass_ex:
  assumes "tracker_update F t ob now = (Inr events, t')" and "walls_inv t"
  shows "\<exists>ts es ts' t2 e3.
      process_side F ts (side_levels ob s) s (mid_price F ob) now = (Inr es, ts')
    \<and> walls_inv ts \<and> threshold ts = threshold t
    \<and> map_of (walls ts) (p, s) = map_of (walls t) (p, s)
    \<and> cleanup_dead_walls t2 ob = (e3, t') \<and> walls_inv t2
    \<and> map_of (walls t2) (p, s) = map_of (walls ts') (p, s)
    \<and> (\<forall>ty. events_for ty (p, s) events
           = events_for ty (p, s) es @ events_for ty (p, s) e3)"
proof (rule own_pass [OF assms, of s p])
  fix ts es ts' t2 e3
  assume "process_side F ts (side_levels ob s) s (mid_price F ob) now = (Inr es, ts')"
    and "walls_inv ts" and "threshold ts = threshold t"
    and "map_of (walls ts) (p, s) = map_of (walls t) (p, s)"
    and "cleanup_dead_walls t2 ob = (e3, t')" and "walls_inv t2"
    and "map_of (walls t2) (p, s) = map_of (walls ts') (p, s)"
    and "\<And>ty. events_for ty (p, s) events
           = events_for ty (p, s) es @ events_for ty (p, s) e3"
  then show ?thesis by (intro exI conjI allI)
qed

lemma side_levels_positive:
  assumes "positive_prices ob" and "l \<in> set (side_levels ob s)"
  shows "0 < price l"
  using assms by (cases s) (auto simp: positive_prices_def side_levels_def list_all_iff)

text \<open>After a pass a key is tracked if it was tracked before or one of its levels reached
  the threshold.\<close>

lemma process_level_tracked_iff:
  assumes "process_level F t level s cp now = (Inr events, t1)"
  shows "map_of (walls t1) (p, s) \<noteq> None \<longleftrightarrow>
     map_of (walls t) (p, s) \<noteq> None \<or> (price level = p \<and> threshold t \<le> notional F level)"
  using assms
  by (auto simp: process_level_def Let_def update_conv' split: if_splits option.splits)

lemma process_side_tracked_iff:
  assumes "process_side F t levels s cp now = (Inr events, t')"
  shows "map_of (walls t') (p, s) \<noteq> None \<longleftrightarrow>
     map_of (walls t) (p, s) \<noteq> None
     \<or> (\<exists>l \<in> set levels. price l = p \<and> threshold t \<le> notional F l)"
  using assms
proof (induction levels arbitrary: t events t')
  case Nil
  then show ?case by simp
next
  case (Cons level levels)
  from Cons.prems obtain e1 t1 e2
    where l: "process_level F t level s cp now = (Inr e1, t1)"
      and r: "process_side F t1 levels s cp now = (Inr e2, t')"
    by (rule process_side_Cons_Inr)
  have th1: "threshold t1 = threshold t" using process_level_frame(1) [OF l] .
  from Cons.IH [OF r] process_level_tracked_iff [OF l, of p] th1
  show ?case by auto
qed

subsection \<open>A sequence of updates\<close>

lemma tracker_update_inv:
  assumes "walls_inv t"
  shows "walls_inv (snd (tracker_update F t ob now))"
proof -
  obtain r1 t1 where 1: "process_side F t (bids ob) BID (mid_price F ob) now = (r1, t1)"
    by (cases "process_side F t (bids ob) BID (mid_price F ob) now")
  have i1: "walls_inv t1" using process_side_inv [OF 1 assms] .
  obtain r2 t2 where 2: "process_side F t1 (asks ob) ASK (mid_price F ob) now = (r2, t2)"
    by (cases "process_side F t1 (asks ob) ASK (mid_price F ob) now")
  have i2: "walls_inv t2" using process_side_inv [OF 2 i1] .
  obtain e3 t3 where 3: "cleanup_dead_walls t2 ob = (e3, t3)"
    by (cases "cleanup_dead_walls t2 ob")
  have i3: "walls_inv t3" using cleanup_inv [OF 3 i2] .
  show ?thesis
    using 1 2 3 i1 i2 i3 by (cases r1; cases r2) (simp_all add: tracker_update_def)
qed

lemma cleanup_threshold:
  "cleanup_dead_walls t ob = (events, t') \<Longrightarrow> threshold t' = threshold t"
  by (auto simp: cleanup_dead_walls_def Let_def)

lemma tracker_update_threshold: "threshold (snd (tracker_update F t ob now)) = threshold t"
proof -
  obtain r1 t1 where 1: "process_side F t (bids ob) BID (mid_price F ob) now = (r1, t1)"
    by (cases "process_side F t (bids ob) BID (mid_price F ob) now")
  have h1: "threshold t1 = threshold t" using process_side_threshold [OF 1] .
  obtain r2 t2 where 2: "process_side F t1 (asks ob) ASK (mid_price F ob) now = (r2, t2)"
    by (cases "process_side F t1 (asks ob) ASK (mid_price F ob) now")
  have h2: "threshold t2 = threshold t1" using process_side_threshold [OF 2] .
  obtain e3 t3 where 3: "cleanup_dead_walls t2 ob = (e3, t3)"
    by (cases "cleanup_dead_walls t2 ob")
  have h3: "threshold t3 = threshold t2" using cleanup_threshold [OF 3] .
  show ?thesis
    using 1 2 3 h1 h2 h3 by (cases r1; cases r2) (simp_all add: tracker_update_def)
qed

lemma tracker_run_snoc:
  "tracker_run F t (calls @ [(ob, now)]) = snd (tracker_update F (tracker_run F t calls) ob now)"
  by (induction calls arbitrary: t) auto

lemma tracker_run_take_Suc:
  assumes "i < length calls" and "calls ! i = (ob, now)"
  shows "tracker_run F t (take (Suc i) calls)
     = snd (tracker_update F (tracker_run F t (take i calls)) ob now)"
  using assms by (simp add: take_Suc_conv_app_nth tracker_run_snoc)

lemma tracker_run_inv: "walls_inv t \<Longrightarrow> walls_inv (tracker_run F t calls)"
  by (induction calls arbitrary: t) (auto simp: tracker_update_inv)

lemma tracker_run_threshold: "threshold (tracker_run F t calls) = threshold t"
  by (induction calls arbitrary: t) (auto simp: tracker_update_threshold)

lemma new_tracker_inv: "walls_inv (new_tracker name th)"
  by (simp add: new_tracker_def walls_inv_def)

lemma key_filter_empty:
  assumes "\<And>ty. events_for ty key events = []"
  shows "filter (\<lambda>e. event_key e = key) events = []"
proof -
  have "event_key e \<noteq> key" if "e \<in> set events" for e
    using assms [of "ev_type e"] that by (auto simp: events_for_def filter_empty_conv)
  then show ?thesis by (auto simp: filter_empty_conv)
qed

lemma key_filter_events_for:
  assumes "filter (\<lambda>e. event_key e = key) events = []"
  shows "events_for ty key events = []"
  using assms by (auto simp: events_for_def filter_empty_conv)

lemmas wall_eval =
  tracker0_def tracker1_def wall1_def wall2_def new_tracker_def new_wall_def
  wall_book1_def wall_book2_def wall_book3_def wall_book4_def
  positive_prices_def walls_inv_def side_levels_def
  notional_def mid_price_def best_bid_def best_ask_def exact_ops_def
  double_1_2_def double_0_003_def truthy_def

lemmas tracker_eval =
  tracker_update_def process_level_def cleanup_dead_walls_def removal_event_def Let_def

subsection \<open>The life of a wall\<close>

text \<open>
  Claim C6. Let a key \<open>(p, s)\<close> be tracked and let the snapshot (with positive prices as
  in the data model, a mid price that is not \<^verbatim>\<open>0.0\<close>, and \<open>p\<close> occurring once on side
  \<open>s\<close>) hold the level \<open>l\<close> at price \<open>p\<close> with a notional at or above the threshold.
  Then \<open>update\<close> returns, and, all arithmetic being that of the runtime \<open>F\<close>,
  \<^item> \<^verbatim>\<open>replenish_count\<close> grows by one and one \<^verbatim>\<open>WALL_REPLENISH\<close> event is emitted for
    the key exactly when the new quantity exceeds \<^verbatim>\<open>current_qty * 1.2\<close>;
  \<^item> \<^verbatim>\<open>test_count\<close> grows by one exactly when the mid price exists and
    \<^verbatim>\<open>abs(mid - p) / p < 0.003\<close>;
  \<^item> afterwards \<^verbatim>\<open>current_qty\<close> is the new quantity, \<^verbatim>\<open>peak_qty\<close> the maximum of the
    old peak and the new quantity, and \<^verbatim>\<open>last_seen\<close> the clock reading.
\<close>

theorem tracked_wall_refreshed:
  assumes "positive_prices ob" and "walls_inv t"
    and "mid_price F ob \<noteq> Some 0"
    and "map_of (walls t) (p, s) = Some wall"
    and "l \<in> set (side_levels ob s)" and "price l = p"
    and "threshold t \<le> notional F l"
    and "distinct (map price (side_levels ob s))"
  shows "\<exists>events t' wall'.
           tracker_update F t ob now = (Inr events, t')
         \<and> map_of (walls t') (p, s) = Some wall'
         \<and> replenish_count wall'
             = replenish_count wall
               + (if quantity l > fmul F (current_qty wall) double_1_2 then 1 else 0)
         \<and> length (events_for WALL_REPLENISH (p, s) events)
             = (if quantity l > fmul F (current_qty wall) double_1_2 then 1 else 0)
         \<and> test_count wall'
             = test_count wall
               + (if \<exists>mid. mid_price F ob = Some mid
                          \<and> fdiv F \<bar>fsub F mid p\<bar> p < double_0_003 then 1 else 0)
         \<and> current_qty wall' = quantity l
         \<and> peak_qty wall' = max (peak_qty wall) (quantity l)
         \<and> last_seen wall' = now"
proof -
  from tracker_update_returns [OF assms(1)]
  obtain events t' where r: "tracker_update F t ob now = (Inr events, t')" by blast
  from own_pass_ex [OF r assms(2), of s p]
  obtain ts es ts' t2 e3
    where pass: "process_side F ts (side_levels ob s) s (mid_price F ob) now = (Inr es, ts')"
      and its: "walls_inv ts" and th: "threshold ts = threshold t"
      and m: "map_of (walls ts) (p, s) = map_of (walls t) (p, s)"
      and cl: "cleanup_dead_walls t2 ob = (e3, t')" and i2: "walls_inv t2"
      and m2: "map_of (walls t2) (p, s) = map_of (walls ts') (p, s)"
      and ev0: "\<forall>ty. events_for ty (p, s) events
                 = events_for ty (p, s) es @ events_for ty (p, s) e3"
    by blast
  have ev: "events_for ty (p, s) events = events_for ty (p, s) es @ events_for ty (p, s) e3"
    for ty
    using ev0 by simp
  have pos: "0 < price l" using side_levels_positive [OF assms(1,5)] .
  have cp: "mid_price F ob = None
      \<or> (\<exists>c. mid_price F ob = Some c \<and> c \<noteq> 0 \<and> price l \<noteq> 0)"
    using assms(3) pos by (cases "mid_price F ob") auto
  have tr: "map_of (walls ts) (price l, s) = Some wall" using m assms(4,6) by simp
  have ab: "threshold ts \<le> notional F l" using th assms(7) by simp
  let ?w = "observed F wall (quantity l) (mid_price F ob) now"
  from process_side_tracked [OF pass its assms(8,5) ab tr cp]
  have w1: "map_of (walls ts') (p, s) = Some ?w"
    and e1: "events_for WALL_REPLENISH (p, s) es =
           (if replenishes F wall (quantity l)
            then [\<lparr>ev_type = WALL_REPLENISH,
                   ev_wall = wall\<lparr>replenish_count := replenish_count wall + 1\<rparr>,
                   ev_reason = None\<rparr>]
            else [])"
    using assms(6) by simp_all
  have "p \<in> price ` set (side_levels ob s)" using assms(5,6) by auto
  then have w': "map_of (walls t') (p, s) = Some ?w"
    using cleanup_lookup [OF cl, of p s] m2 w1 by simp
  have "events_for WALL_REPLENISH (p, s) e3 = []"
    using cleanup_event_types [OF cl] by (intro events_for_other_type) auto
  then have len: "length (events_for WALL_REPLENISH (p, s) events)
      = (if quantity l > fmul F (current_qty wall) double_1_2 then 1 else 0)"
    using ev [of WALL_REPLENISH] e1 by (simp add: replenishes_def)
  have wp: "wall_price wall = p" using walls_inv_lookup [OF assms(2,4)] by simp
  have te: "tests F (mid_price F ob) (wall_price wall)
      = (\<exists>mid. mid_price F ob = Some mid \<and> fdiv F \<bar>fsub F mid p\<bar> p < double_0_003)"
    using wp by (cases "mid_price F ob") (simp_all add: tests_def)
  have "replenish_count ?w
          = replenish_count wall
            + (if quantity l > fmul F (current_qty wall) double_1_2 then 1 else 0)"
    and "test_count ?w = test_count wall
               + (if \<exists>mid. mid_price F ob = Some mid
                          \<and> fdiv F \<bar>fsub F mid p\<bar> p < double_0_003 then 1 else 0)"
    and "current_qty ?w = quantity l"
    and "peak_qty ?w = max (peak_qty wall) (quantity l)"
    and "last_seen ?w = now"
    unfolding te [symmetric] by (simp_all add: observed_def replenishes_def)
  with r w' len show ?thesis by blast
qed

text \<open>
  The witness: the wall of 2048 at price 128 meets 4096 with the mid price at 128.125
  (replenished and tested), and, from the same wall, 2048 again with the mid price at
  128.5 (neither).
\<close>

theorem tracked_wall_refreshed_witness:
  "positive_prices wall_book2 \<and> walls_inv tracker1
   \<and> mid_price exact_ops wall_book2 = Some (1025 / 8)
   \<and> map_of (walls tracker1) (128, BID) = Some wall1
   \<and> notional exact_ops \<lparr>price = 128, quantity = 4096\<rparr> = 524288
   \<and> threshold tracker1 = 200000
   \<and> fmul exact_ops (current_qty wall1) double_1_2 = 5404319552844595 / 2199023255552
   \<and> fdiv exact_ops \<bar>fsub exact_ops (1025 / 8) 128\<bar> 128 = 1 / 1024
   \<and> tracker_update exact_ops tracker1 wall_book2 11
       = (Inr [\<lparr>ev_type = WALL_REPLENISH, ev_wall = wall1\<lparr>replenish_count := 1\<rparr>,
                ev_reason = None\<rparr>],
          tracker1\<lparr>walls := [((128, BID), wall2)]\<rparr>)
   \<and> (\<exists>events t' wall'.
           tracker_update exact_ops tracker1 wall_book2 11 = (Inr events, t')
         \<and> map_of (walls t') (128, BID) = Some wall'
         \<and> replenish_count wall' = 1
         \<and> length (events_for WALL_REPLENISH (128, BID) events) = 1
         \<and> test_count wall' = 1
         \<and> current_qty wall' = 4096
         \<and> peak_qty wall' = 4096
         \<and> last_seen wall' = 11)
   \<and> mid_price exact_ops wall_book1 = Some (257 / 2)
   \<and> fdiv exact_ops \<bar>fsub exact_ops (257 / 2) 128\<bar> 128 = 1 / 256
   \<and> (\<exists>events t' wall'.
           tracker_update exact_ops tracker1 wall_book1 11 = (Inr events, t')
         \<and> map_of (walls t') (128, BID) = Some wall'
         \<and> replenish_count wall' = 0
         \<and> length (events_for WALL_REPLENISH (128, BID) events) = 0
         \<and> test_count wall' = 0
         \<and> current_qty wall' = 2048
         \<and> peak_qty wall' = 2048
         \<and> last_seen wall' = 11)"
proof -
  have 1: "positive_prices wall_book2" by (simp add: wall_eval)
  have 2: "walls_inv tracker1" by (simp add: wall_eval)
  have mid: "mid_price exact_ops wall_book2 = Some (1025 / 8)" by (simp add: wall_eval)
  have 3: "mid_price exact_ops wall_book2 \<noteq> Some 0" unfolding mid by simp
  have 4: "map_of (walls tracker1) (128, BID) = Some wall1" by (simp add: wall_eval)
  have 5: "\<lparr>price = 128, quantity = 4096\<rparr> \<in> set (side_levels wall_book2 BID)"
    by (simp add: wall_eval)
  have 6: "price \<lparr>price = 128, quantity = 4096\<rparr> = 128" by simp
  have n: "notional exact_ops \<lparr>price = 128, quantity = 4096\<rparr> = 524288"
    by (simp add: wall_eval)
  have th: "threshold tracker1 = 200000" by (simp add: wall_eval)
  have 7: "threshold tracker1 \<le> notional exact_ops \<lparr>price = 128, quantity = 4096\<rparr>"
    unfolding n th by simp
  have 8: "distinct (map price (side_levels wall_book2 BID))" by (simp add: wall_eval)
  have pr: "fmul exact_ops (current_qty wall1) double_1_2 = 5404319552844595 / 2199023255552"
    by (simp add: wall_eval)
  have q: "quantity \<lparr>price = 128, quantity = 4096\<rparr>
      > fmul exact_ops (current_qty wall1) double_1_2"
    unfolding pr by simp
  have di: "fdiv exact_ops \<bar>fsub exact_ops (1025 / 8) 128\<bar> 128 = 1 / 1024"
    by (simp add: wall_eval)
  have c: "\<exists>mid. mid_price exact_ops wall_book2 = Some mid
      \<and> fdiv exact_ops \<bar>fsub exact_ops mid 128\<bar> 128 < double_0_003"
    unfolding mid by (intro exI [of _ "1025 / 8"]) (simp add: di, simp add: double_0_003_def)
  have run: "tracker_update exact_ops tracker1 wall_book2 11
       = (Inr [\<lparr>ev_type = WALL_REPLENISH, ev_wall = wall1\<lparr>replenish_count := 1\<rparr>,
                ev_reason = None\<rparr>],
          tracker1\<lparr>walls := [((128, BID), wall2)]\<rparr>)"
    by (simp add: tracker_eval wall_eval)
  from tracked_wall_refreshed [OF 1 2 3 4 5 6 7 8, of 11]
  obtain events t' wall'
    where r: "tracker_update exact_ops tracker1 wall_book2 11 = (Inr events, t')"
      and w: "map_of (walls t') (128, BID) = Some wall'"
      and f: "replenish_count wall' = replenish_count wall1
             + (if quantity \<lparr>price = 128, quantity = 4096\<rparr>
                     > fmul exact_ops (current_qty wall1) double_1_2
                then 1 else 0)"
        "length (events_for WALL_REPLENISH (128, BID) events)
             = (if quantity \<lparr>price = 128, quantity = 4096\<rparr>
                     > fmul exact_ops (current_qty wall1) double_1_2
                then 1 else 0)"
        "test_count wall' = test_count wall1
             + (if \<exists>mid. mid_price exact_ops wall_book2 = Some mid
                       \<and> fdiv exact_ops \<bar>fsub exact_ops mid 128\<bar> 128 < double_0_003
                then 1 else 0)"
        "current_qty wall' = quantity \<lparr>price = 128, quantity = 4096\<rparr>"
        "peak_qty wall' = max (peak_qty wall1) (quantity \<lparr>price = 128, quantity = 4096\<rparr>)"
        "last_seen wall' = 11"
    by blast
  have "replenish_count wall' = 1"
    and "length (events_for WALL_REPLENISH (128, BID) events) = 1"
    and "test_count wall' = 1" and "current_qty wall' = 4096"
    and "peak_qty wall' = 4096" and "last_seen wall' = 11"
    using f unfolding if_P [OF q] if_P [OF c] by (simp_all add: wall1_def)
  with r w have a: "\<exists>events t' wall'.
           tracker_update exact_ops tracker1 wall_book2 11 = (Inr events, t')
         \<and> map_of (walls t') (128, BID) = Some wall'
         \<and> replenish_count wall' = 1
         \<and> length (events_for WALL_REPLENISH (128, BID) events) = 1
         \<and> test_count wall' = 1
         \<and> current_qty wall' = 4096
         \<and> peak_qty wall' = 4096
         \<and> last_seen wall' = 11"
    by blast
  have p1: "positive_prices wall_book1" by (simp add: wall_eval)
  have mid': "mid_price exact_ops wall_book1 = Some (257 / 2)" by (simp add: wall_eval)
  have p3: "mid_price exact_ops wall_book1 \<noteq> Some 0" unfolding mid' by simp
  have p5: "\<lparr>price = 128, quantity = 2048\<rparr> \<in> set (side_levels wall_book1 BID)"
    by (simp add: wall_eval)
  have p6: "price \<lparr>price = 128, quantity = 2048\<rparr> = 128" by simp
  have p7: "threshold tracker1 \<le> notional exact_ops \<lparr>price = 128, quantity = 2048\<rparr>"
    by (simp add: wall_eval)
  have p8: "distinct (map price (side_levels wall_book1 BID))" by (simp add: wall_eval)
  have q': "\<not> quantity \<lparr>price = 128, quantity = 2048\<rparr>
      > fmul exact_ops (current_qty wall1) double_1_2"
    unfolding pr by simp
  have di': "fdiv exact_ops \<bar>fsub exact_ops (257 / 2) 128\<bar> 128 = 1 / 256"
    by (simp add: wall_eval)
  have c': "\<not> (\<exists>mid. mid_price exact_ops wall_book1 = Some mid
      \<and> fdiv exact_ops \<bar>fsub exact_ops mid 128\<bar> 128 < double_0_003)"
  proof
    assume "\<exists>mid. mid_price exact_ops wall_book1 = Some mid
      \<and> fdiv exact_ops \<bar>fsub exact_ops mid 128\<bar> 128 < double_0_003"
    then obtain mid where e: "mid_price exact_ops wall_book1 = Some mid"
      and lt: "fdiv exact_ops \<bar>fsub exact_ops mid 128\<bar> 128 < double_0_003"
      by blast
    from e mid' have "mid = 257 / 2" by simp
    with lt have "fdiv exact_ops \<bar>fsub exact_ops (257 / 2) 128\<bar> 128 < double_0_003"
      by blast
    then show False unfolding di' by (simp add: double_0_003_def)
  qed
  from tracked_wall_refreshed [OF p1 2 p3 4 p5 p6 p7 p8, of 11]
  obtain events2 t2 wall2'
    where r2: "tracker_update exact_ops tracker1 wall_book1 11 = (Inr events2, t2)"
      and w2: "map_of (walls t2) (128, BID) = Some wall2'"
      and f2: "replenish_count wall2' = replenish_count wall1
             + (if quantity \<lparr>price = 128, quantity = 2048\<rparr>
                     > fmul exact_ops (current_qty wall1) double_1_2
                then 1 else 0)"
        "length (events_for WALL_REPLENISH (128, BID) events2)
             = (if quantity \<lparr>price = 128, quantity = 2048\<rparr>
                     > fmul exact_ops (current_qty wall1) double_1_2
                then 1 else 0)"
        "test_count wall2' = test_count wall1
             + (if \<exists>mid. mid_price exact_ops wall_book1 = Some mid
                       \<and> fdiv exact_ops \<bar>fsub exact_ops mid 128\<bar> 128 < double_0_003
                then 1 else 0)"
        "current_qty wall2' = quantity \<lparr>price = 128, quantity = 2048\<rparr>"
        "peak_qty wall2' = max (peak_qty wall1) (quantity \<lparr>price = 128, quantity = 2048\<rparr>)"
        "last_seen wall2' = 11"
    by blast
  have "replenish_count wall2' = 0"
    and "length (events_for WALL_REPLENISH (128, BID) events2) = 0"
    and "test_count wall2' = 0" and "current_qty wall2' = 2048"
    and "peak_qty wall2' = 2048" and "last_seen wall2' = 11"
    using f2 unfolding if_not_P [OF q'] if_not_P [OF c'] by (simp_all add: wall1_def)
  with r2 w2 have b: "\<exists>events t' wall'.
           tracker_update exact_ops tracker1 wall_book1 11 = (Inr events, t')
         \<and> map_of (walls t') (128, BID) = Some wall'
         \<and> replenish_count wall' = 0
         \<and> length (events_for WALL_REPLENISH (128, BID) events) = 0
         \<and> test_count wall' = 0
         \<and> current_qty wall' = 2048
         \<and> peak_qty wall' = 2048
         \<and> last_seen wall' = 11"
    by blast
  from 1 2 mid 4 n th pr di run a mid' di' b show ?thesis by simp
qed

text \<open>
  Claim C7. Take a tracker as the constructor returns it and any sequence of \<open>update\<close>
  calls on snapshots with positive prices (as in the data model); let \<open>t\<close> be the tracker
  before call \<open>i\<close> and \<open>t'\<close> the one after it. Then the call returns, and for every key
  \<open>(p, s)\<close>:
  \<^item> exactly one \<^verbatim>\<open>NEW_WALL\<close> event is emitted for the key if it is untracked in \<open>t\<close> and
    a level at price \<open>p\<close> on side \<open>s\<close> has a notional at or above the threshold, and none
    otherwise;
  \<^item> exactly one \<^verbatim>\<open>WALL_REMOVED\<close> event is emitted for the key if it is tracked in \<open>t\<close>
    and \<open>p\<close> is absent from side \<open>s\<close>, with reason \<^verbatim>\<open>consumed\<close> if the wall's
    \<^verbatim>\<open>test_count\<close> is positive and \<^verbatim>\<open>cancelled\<close> otherwise, and none otherwise;
  \<^item> the key is tracked in \<open>t'\<close> exactly if \<open>p\<close> is on side \<open>s\<close> of the snapshot and
    the key was tracked in \<open>t\<close> or has just received its \<^verbatim>\<open>NEW_WALL\<close>.
  So a key that has received \<^verbatim>\<open>NEW_WALL\<close> is stored and receives no second one while
  its price stays in the book; it receives \<^verbatim>\<open>WALL_REMOVED\<close> once, on the first snapshot
  without its price, and is dropped by that same call.
\<close>

theorem wall_birth_and_removal_events:
  assumes "list_all (\<lambda>call. positive_prices (fst call)) calls"
    and "i < length calls" and "calls ! i = (ob, now)"
    and "t = tracker_run F (new_tracker name th) (take i calls)"
  shows "\<exists>events t'.
           tracker_update F t ob now = (Inr events, t')
         \<and> tracker_run F (new_tracker name th) (take (Suc i) calls) = t'
         \<and> length (events_for NEW_WALL (p, s) events)
             = (if map_of (walls t) (p, s) = None
                   \<and> (\<exists>l \<in> set (side_levels ob s). price l = p \<and> th \<le> notional F l)
                then 1 else 0)
         \<and> events_for WALL_REMOVED (p, s) events
             = (case map_of (walls t) (p, s) of
                  Some wall \<Rightarrow>
                    if p \<notin> price ` set (side_levels ob s)
                    then [\<lparr>ev_type = WALL_REMOVED, ev_wall = wall,
                           ev_reason = Some (if test_count wall > 0 then ''consumed''
                                             else ''cancelled'')\<rparr>]
                    else []
                | None \<Rightarrow> [])
         \<and> (map_of (walls t') (p, s) \<noteq> None \<longleftrightarrow>
              p \<in> price ` set (side_levels ob s)
              \<and> (map_of (walls t) (p, s) \<noteq> None
                 \<or> (\<exists>l \<in> set (side_levels ob s). price l = p \<and> th \<le> notional F l)))"
proof -
  have inv: "walls_inv t"
    unfolding assms(4) by (intro tracker_run_inv new_tracker_inv)
  have tht: "threshold t = th"
    unfolding assms(4) tracker_run_threshold by (simp add: new_tracker_def)
  have "(ob, now) \<in> set calls" using assms(2,3) by (metis nth_mem)
  then have pos: "positive_prices ob" using assms(1) by (auto simp: list_all_iff)
  from tracker_update_returns [OF pos]
  obtain events t' where r: "tracker_update F t ob now = (Inr events, t')" by blast
  have nxt: "tracker_run F (new_tracker name th) (take (Suc i) calls) = t'"
    using tracker_run_take_Suc [OF assms(2,3), of F "new_tracker name th"] r
    unfolding assms(4) [symmetric] by simp
  from own_pass_ex [OF r inv, of s p]
  obtain ts es ts' t2 e3
    where pass: "process_side F ts (side_levels ob s) s (mid_price F ob) now = (Inr es, ts')"
      and its: "walls_inv ts" and th: "threshold ts = threshold t"
      and m: "map_of (walls ts) (p, s) = map_of (walls t) (p, s)"
      and cl: "cleanup_dead_walls t2 ob = (e3, t')" and i2: "walls_inv t2"
      and m2: "map_of (walls t2) (p, s) = map_of (walls ts') (p, s)"
      and ev0: "\<forall>ty. events_for ty (p, s) events
                 = events_for ty (p, s) es @ events_for ty (p, s) e3"
    by blast
  have ev: "events_for ty (p, s) events = events_for ty (p, s) es @ events_for ty (p, s) e3"
    for ty
    using ev0 by simp
  have "events_for NEW_WALL (p, s) e3 = []"
    using cleanup_event_types [OF cl] by (intro events_for_other_type) auto
  then have new: "length (events_for NEW_WALL (p, s) events)
             = (if map_of (walls t) (p, s) = None
                   \<and> (\<exists>l \<in> set (side_levels ob s). price l = p \<and> th \<le> notional F l)
                then 1 else 0)"
    using process_side_new_walls [OF pass its, of p] ev [of NEW_WALL] m th tht by simp
  have "events_for WALL_REMOVED (p, s) es = []"
    using process_side_event_types [OF pass] by (intro events_for_other_type) auto
  then have e3: "events_for WALL_REMOVED (p, s) events = events_for WALL_REMOVED (p, s) e3"
    using ev [of WALL_REMOVED] by simp
  have absent: "map_of (walls t2) (p, s) = map_of (walls t) (p, s)"
    if "p \<notin> price ` set (side_levels ob s)"
    using process_side_frame [OF pass, of "(p, s)"] that m m2 by simp
  have rem: "events_for WALL_REMOVED (p, s) events
             = (case map_of (walls t) (p, s) of
                  Some wall \<Rightarrow>
                    if p \<notin> price ` set (side_levels ob s)
                    then [\<lparr>ev_type = WALL_REMOVED, ev_wall = wall,
                           ev_reason = Some (if test_count wall > 0 then ''consumed''
                                             else ''cancelled'')\<rparr>]
                    else []
                | None \<Rightarrow> [])"
  proof (cases "p \<in> price ` set (side_levels ob s)")
    case True
    then show ?thesis
      unfolding e3 cleanup_events [OF cl i2] by (simp split: option.splits)
  next
    case False
    then show ?thesis
      unfolding e3 cleanup_events [OF cl i2] absent [OF False]
      by (simp add: removal_event_def split: option.splits)
  qed
  have "map_of (walls t2) (p, s) \<noteq> None \<longleftrightarrow>
      map_of (walls t) (p, s) \<noteq> None
      \<or> (\<exists>l \<in> set (side_levels ob s). price l = p \<and> th \<le> notional F l)"
    using process_side_tracked_iff [OF pass, of p] m m2 th tht by simp
  then have stored: "map_of (walls t') (p, s) \<noteq> None \<longleftrightarrow>
              p \<in> price ` set (side_levels ob s)
              \<and> (map_of (walls t) (p, s) \<noteq> None
                 \<or> (\<exists>l \<in> set (side_levels ob s). price l = p \<and> th \<le> notional F l))"
    using cleanup_lookup [OF cl, of p s] by simp
  from r nxt new rem stored show ?thesis by blast
qed

text \<open>
  The witness: the wall is born on the first snapshot, replenished and tested on the
  second, and removed as consumed on the third; removed right after its birth it is
  cancelled.
\<close>

lemma wall_run_states:
  "tracker_run exact_ops (new_tracker ''BTCUSDT'' 200000) [] = tracker0"
  "tracker_update exact_ops tracker0 wall_book1 10
     = (Inr [\<lparr>ev_type = NEW_WALL, ev_wall = wall1, ev_reason = None\<rparr>], tracker1)"
  "tracker_update exact_ops tracker1 wall_book2 11
     = (Inr [\<lparr>ev_type = WALL_REPLENISH, ev_wall = wall1\<lparr>replenish_count := 1\<rparr>,
              ev_reason = None\<rparr>],
        tracker0\<lparr>walls := [((128, BID), wall2)]\<rparr>)"
  "tracker_update exact_ops (tracker0\<lparr>walls := [((128, BID), wall2)]\<rparr>) wall_book3 12
     = (Inr [\<lparr>ev_type = WALL_REMOVED, ev_wall = wall2, ev_reason = Some ''consumed''\<rparr>],
        tracker0)"
  "tracker_update exact_ops tracker1 wall_book3 12
     = (Inr [\<lparr>ev_type = WALL_REMOVED, ev_wall = wall1, ev_reason = Some ''cancelled''\<rparr>],
        tracker0)"
  by (simp_all add: tracker_eval wall_eval)

theorem wall_birth_and_removal_events_witness:
  "list_all (\<lambda>call. positive_prices (fst call))
     [(wall_book1, 10 :: real), (wall_book2, 11), (wall_book3, 12)]
   \<and> tracker_run exact_ops (new_tracker ''BTCUSDT'' 200000)
        (take 0 [(wall_book1, 10), (wall_book2, 11), (wall_book3, 12)]) = tracker0
   \<and> walls tracker0 = []
   \<and> (\<exists>events. tracker_update exact_ops tracker0 wall_book1 10 = (Inr events, tracker1)
        \<and> length (events_for NEW_WALL (128, BID) events) = 1
        \<and> events_for WALL_REMOVED (128, BID) events = [])
   \<and> tracker_run exact_ops (new_tracker ''BTCUSDT'' 200000)
        (take 1 [(wall_book1, 10), (wall_book2, 11), (wall_book3, 12)]) = tracker1
   \<and> walls tracker1 = [((128, BID), wall1)]
   \<and> (\<exists>events. tracker_update exact_ops tracker1 wall_book2 11
          = (Inr events, tracker0\<lparr>walls := [((128, BID), wall2)]\<rparr>)
        \<and> length (events_for NEW_WALL (128, BID) events) = 0
        \<and> events_for WALL_REMOVED (128, BID) events = [])
   \<and> tracker_run exact_ops (new_tracker ''BTCUSDT'' 200000)
        (take 2 [(wall_book1, 10), (wall_book2, 11), (wall_book3, 12)])
       = tracker0\<lparr>walls := [((128, BID), wall2)]\<rparr>
   \<and> (\<exists>events. tracker_update exact_ops (tracker0\<lparr>walls := [((128, BID), wall2)]\<rparr>)
          wall_book3 12 = (Inr events, tracker0)
        \<and> length (events_for NEW_WALL (128, BID) events) = 0
        \<and> events_for WALL_REMOVED (128, BID) events
            = [\<lparr>ev_type = WALL_REMOVED, ev_wall = wall2, ev_reason = Some ''consumed''\<rparr>])
   \<and> tracker_run exact_ops (new_tracker ''BTCUSDT'' 200000)
        (take 1 [(wall_book1, 10), (wall_book3, 12)]) = tracker1
   \<and> (\<exists>events. tracker_update exact_ops tracker1 wall_book3 12 = (Inr events, tracker0)
        \<and> events_for WALL_REMOVED (128, BID) events
            = [\<lparr>ev_type = WALL_REMOVED, ev_wall = wall1, ev_reason = Some ''cancelled''\<rparr>])"
proof -
  let ?calls = "[(wall_book1, 10), (wall_book2, 11), (wall_book3, 12 :: real)]"
  let ?calls2 = "[(wall_book1, 10), (wall_book3, 12 :: real)]"
  let ?new = "new_tracker ''BTCUSDT'' 200000"
  let ?t2 = "tracker0\<lparr>walls := [((128, BID), wall2)]\<rparr>"
  have pos: "list_all (\<lambda>call. positive_prices (fst call)) ?calls"
    and pos2: "list_all (\<lambda>call. positive_prices (fst call)) ?calls2"
    by (simp_all add: wall_eval)
  have s0: "tracker_run exact_ops ?new (take 0 ?calls) = tracker0"
    by (simp add: tracker0_def)
  have s1: "tracker_run exact_ops ?new (take 1 ?calls) = tracker1"
    using wall_run_states(2) by (simp add: tracker0_def [symmetric])
  have s2: "tracker_run exact_ops ?new (take 2 ?calls) = ?t2"
    using wall_run_states(2,3)
    by (simp add: tracker0_def [symmetric] numeral_2_eq_2)
  have s1': "tracker_run exact_ops ?new (take 1 ?calls2) = tracker1"
    using wall_run_states(2) by (simp add: tracker0_def [symmetric])
  have w0: "walls tracker0 = []" and w1: "walls tracker1 = [((128, BID), wall1)]"
    by (simp_all add: wall_eval)
  have l1: "\<lparr>price = 128, quantity = 2048\<rparr> \<in> set (side_levels wall_book1 BID)
        \<and> price \<lparr>price = 128, quantity = 2048\<rparr> = 128
        \<and> 200000 \<le> notional exact_ops \<lparr>price = 128, quantity = 2048\<rparr>"
    by (simp add: wall_eval)
  have u0: "map_of (walls tracker0) (128, BID) = None" unfolding w0 by simp
  have c0: "map_of (walls tracker0) (128, BID) = None
        \<and> (\<exists>l \<in> set (side_levels wall_book1 BID).
              price l = 128 \<and> 200000 \<le> notional exact_ops l)"
    using u0 l1 by blast
  have u1: "map_of (walls tracker1) (128, BID) = Some wall1" unfolding w1 by simp
  have u2: "map_of (walls ?t2) (128, BID) = Some wall2" by simp
  have in2: "\<not> 128 \<notin> price ` set (side_levels wall_book2 BID)" by (simp add: wall_eval)
  have out3: "128 \<notin> price ` set (side_levels wall_book3 BID)" by (simp add: wall_eval)
  have tc2: "test_count wall2 > 0" and tc1: "\<not> test_count wall1 > 0"
    by (simp_all add: wall_eval)
  \<comment> \<open>call 0\<close>
  from wall_birth_and_removal_events
         [OF pos, of 0 wall_book1 10 tracker0 exact_ops "''BTCUSDT''" 200000 128 BID] s0
  obtain ev0 t0'
    where r0: "tracker_update exact_ops tracker0 wall_book1 10 = (Inr ev0, t0')"
      and n0: "tracker_run exact_ops ?new (take (Suc 0) ?calls) = t0'"
      and a0: "length (events_for NEW_WALL (128, BID) ev0)
             = (if map_of (walls tracker0) (128, BID) = None
                   \<and> (\<exists>l \<in> set (side_levels wall_book1 BID).
                          price l = 128 \<and> 200000 \<le> notional exact_ops l)
                then 1 else 0)"
      and d0: "events_for WALL_REMOVED (128, BID) ev0
             = (case map_of (walls tracker0) (128, BID) of
                  Some wall \<Rightarrow>
                    if 128 \<notin> price ` set (side_levels wall_book1 BID)
                    then [\<lparr>ev_type = WALL_REMOVED, ev_wall = wall,
                           ev_reason = Some (if test_count wall > 0 then ''consumed''
                                             else ''cancelled'')\<rparr>]
                    else []
                | None \<Rightarrow> [])"
    by auto
  have "t0' = tracker1" using n0 s1 by simp
  moreover have "length (events_for NEW_WALL (128, BID) ev0) = 1"
    using a0 unfolding if_P [OF c0] .
  moreover have "events_for WALL_REMOVED (128, BID) ev0 = []" using d0 unfolding u0 by simp
  ultimately have A: "\<exists>events. tracker_update exact_ops tracker0 wall_book1 10
          = (Inr events, tracker1)
        \<and> length (events_for NEW_WALL (128, BID) events) = 1
        \<and> events_for WALL_REMOVED (128, BID) events = []"
    using r0 by blast
  \<comment> \<open>call 1\<close>
  have nc1: "\<not> (map_of (walls tracker1) (128, BID) = None
        \<and> (\<exists>l \<in> set (side_levels wall_book2 BID).
              price l = 128 \<and> 200000 \<le> notional exact_ops l))"
    using u1 by simp
  from wall_birth_and_removal_events
         [OF pos, of 1 wall_book2 11 tracker1 exact_ops "''BTCUSDT''" 200000 128 BID] s1
  obtain ev1 t1'
    where r1: "tracker_update exact_ops tracker1 wall_book2 11 = (Inr ev1, t1')"
      and n1: "tracker_run exact_ops ?new (take (Suc 1) ?calls) = t1'"
      and a1: "length (events_for NEW_WALL (128, BID) ev1)
             = (if map_of (walls tracker1) (128, BID) = None
                   \<and> (\<exists>l \<in> set (side_levels wall_book2 BID).
                          price l = 128 \<and> 200000 \<le> notional exact_ops l)
                then 1 else 0)"
      and d1: "events_for WALL_REMOVED (128, BID) ev1
             = (case map_of (walls tracker1) (128, BID) of
                  Some wall \<Rightarrow>
                    if 128 \<notin> price ` set (side_levels wall_book2 BID)
                    then [\<lparr>ev_type = WALL_REMOVED, ev_wall = wall,
                           ev_reason = Some (if test_count wall > 0 then ''consumed''
                                             else ''cancelled'')\<rparr>]
                    else []
                | None \<Rightarrow> [])"
    by auto
  have "t1' = ?t2" using n1 s2 by (simp add: numeral_2_eq_2)
  moreover have "length (events_for NEW_WALL (128, BID) ev1) = 0"
    using a1 unfolding if_not_P [OF nc1] .
  moreover have "events_for WALL_REMOVED (128, BID) ev1 = []"
    using d1 unfolding u1 option.case if_not_P [OF in2] .
  ultimately have B: "\<exists>events. tracker_update exact_ops tracker1 wall_book2 11
          = (Inr events, ?t2)
        \<and> length (events_for NEW_WALL (128, BID) events) = 0
        \<and> events_for WALL_REMOVED (128, BID) events = []"
    using r1 by blast
  \<comment> \<open>call 2\<close>
  have nc2: "\<not> (map_of (walls ?t2) (128, BID) = None
        \<and> (\<exists>l \<in> set (side_levels wall_book3 BID).
              price l = 128 \<and> 200000 \<le> notional exact_ops l))"
    using u2 by simp
  have st2: "(map_of (walls tracker0) (128, BID) \<noteq> None) = False" using u0 by simp
  from wall_birth_and_removal_events
         [OF pos, of 2 wall_book3 12 ?t2 exact_ops "''BTCUSDT''" 200000 128 BID] s2
  obtain ev2 t2'
    where r2: "tracker_update exact_ops ?t2 wall_book3 12 = (Inr ev2, t2')"
      and a2: "length (events_for NEW_WALL (128, BID) ev2)
             = (if map_of (walls ?t2) (128, BID) = None
                   \<and> (\<exists>l \<in> set (side_levels wall_book3 BID).
                          price l = 128 \<and> 200000 \<le> notional exact_ops l)
                then 1 else 0)"
      and d2: "events_for WALL_REMOVED (128, BID) ev2
             = (case map_of (walls ?t2) (128, BID) of
                  Some wall \<Rightarrow>
                    if 128 \<notin> price ` set (side_levels wall_book3 BID)
                    then [\<lparr>ev_type = WALL_REMOVED, ev_wall = wall,
                           ev_reason = Some (if test_count wall > 0 then ''consumed''
                                             else ''cancelled'')\<rparr>]
                    else []
                | None \<Rightarrow> [])"
    by auto
  have "t2' = tracker0" using r2 wall_run_states(4) by simp
  moreover have "length (events_for NEW_WALL (128, BID) ev2) = 0"
    using a2 unfolding if_not_P [OF nc2] .
  moreover have "events_for WALL_REMOVED (128, BID) ev2
      = [\<lparr>ev_type = WALL_REMOVED, ev_wall = wall2, ev_reason = Some ''consumed''\<rparr>]"
    using d2 unfolding u2 option.case if_P [OF out3] if_P [OF tc2] .
  ultimately have C: "\<exists>events. tracker_update exact_ops ?t2 wall_book3 12
          = (Inr events, tracker0)
        \<and> length (events_for NEW_WALL (128, BID) events) = 0
        \<and> events_for WALL_REMOVED (128, BID) events
            = [\<lparr>ev_type = WALL_REMOVED, ev_wall = wall2, ev_reason = Some ''consumed''\<rparr>]"
    using r2 by blast
  \<comment> \<open>removed right after its birth\<close>
  from wall_birth_and_removal_events
         [OF pos2, of 1 wall_book3 12 tracker1 exact_ops "''BTCUSDT''" 200000 128 BID] s1'
  obtain ev3 t3'
    where r3: "tracker_update exact_ops tracker1 wall_book3 12 = (Inr ev3, t3')"
      and d3: "events_for WALL_REMOVED (128, BID) ev3
             = (case map_of (walls tracker1) (128, BID) of
                  Some wall \<Rightarrow>
                    if 128 \<notin> price ` set (side_levels wall_book3 BID)
                    then [\<lparr>ev_type = WALL_REMOVED, ev_wall = wall,
                           ev_reason = Some (if test_count wall > 0 then ''consumed''
                                             else ''cancelled'')\<rparr>]
                    else []
                | None \<Rightarrow> [])"
    by auto
  have "t3' = tracker0" using r3 wall_run_states(5) by simp
  moreover have "events_for WALL_REMOVED (128, BID) ev3
      = [\<lparr>ev_type = WALL_REMOVED, ev_wall = wall1, ev_reason = Some ''cancelled''\<rparr>]"
    using d3 unfolding u1 option.case if_P [OF out3] if_not_P [OF tc1] .
  ultimately have D: "\<exists>events. tracker_update exact_ops tracker1 wall_book3 12
          = (Inr events, tracker0)
        \<and> events_for WALL_REMOVED (128, BID) events
            = [\<lparr>ev_type = WALL_REMOVED, ev_wall = wall1, ev_reason = Some ''cancelled''\<rparr>]"
    using r3 by blast
  show ?thesis
    apply (intro conjI)
    apply (rule pos)
    apply (rule s0)
    apply (rule w0)
    apply (rule A)
    apply (rule s1)
    apply (rule w1)
    apply (rule B)
    apply (rule s2)
    apply (rule C)
    apply (rule s1')
    apply (rule D)
    done
qed

text \<open>
  Claim C10. A tracked wall whose price is still on its side of the snapshot (positive
  prices, as in the data model), but with every level at that price of a notional (the
  double product) below the threshold, gets no event from \<open>update\<close>, stays in the wall
  map and keeps all its fields: a wall leaves the map only when its price leaves the
  book.
\<close>

theorem wall_below_threshold_untouched:
  assumes "positive_prices ob" and "walls_inv t"
    and "map_of (walls t) (p, s) = Some wall"
    and "p \<in> price ` set (side_levels ob s)"
    and "\<forall>l \<in> set (side_levels ob s). price l = p \<longrightarrow> notional F l < threshold t"
  shows "\<exists>events t'.
           tracker_update F t ob now = (Inr events, t')
         \<and> filter (\<lambda>e. event_key e = (p, s)) events = []
         \<and> map_of (walls t') (p, s) = Some wall"
proof -
  from tracker_update_returns [OF assms(1)]
  obtain events t' where r: "tracker_update F t ob now = (Inr events, t')" by blast
  from own_pass_ex [OF r assms(2), of s p]
  obtain ts es ts' t2 e3
    where pass: "process_side F ts (side_levels ob s) s (mid_price F ob) now = (Inr es, ts')"
      and its: "walls_inv ts" and th: "threshold ts = threshold t"
      and m: "map_of (walls ts) (p, s) = map_of (walls t) (p, s)"
      and cl: "cleanup_dead_walls t2 ob = (e3, t')" and i2: "walls_inv t2"
      and m2: "map_of (walls t2) (p, s) = map_of (walls ts') (p, s)"
      and ev0: "\<forall>ty. events_for ty (p, s) events
                 = events_for ty (p, s) es @ events_for ty (p, s) e3"
    by blast
  have ev: "events_for ty (p, s) events = events_for ty (p, s) es @ events_for ty (p, s) e3"
    for ty
    using ev0 by simp
  have below: "\<forall>l \<in> set (side_levels ob s). price l = p \<longrightarrow> notional F l < threshold ts"
    using assms(5) th by simp
  from process_side_below [OF pass its below]
  have keep: "map_of (walls ts') (p, s) = map_of (walls ts) (p, s)"
    and none: "filter (\<lambda>e. event_key e = (p, s)) es = []"
    by simp_all
  have "event_key e \<noteq> (p, s)" if "e \<in> set e3" for e
    using cleanup_event_keys [OF cl i2 that] assms(4) by auto
  then have none3: "events_for ty (p, s) e3 = []" for ty
    by (intro events_for_other_key) auto
  have "events_for ty (p, s) events = []" for ty
    using ev [of ty] key_filter_events_for [OF none, of ty] none3 [of ty] by simp
  then have "filter (\<lambda>e. event_key e = (p, s)) events = []" by (rule key_filter_empty)
  moreover have "map_of (walls t') (p, s) = Some wall"
    using cleanup_lookup [OF cl, of p s] assms(3,4) m m2 keep by simp
  ultimately show ?thesis using r by blast
qed

text \<open>
  The witness: the bid at 128 has shrunk from 2048 to 1024, a notional of 131072 below
  the threshold 200000; the call returns no event and the tracker as it was, the wall
  still with quantity 2048 and last seen at time 10.
\<close>

theorem wall_below_threshold_untouched_witness:
  "positive_prices wall_book4 \<and> walls_inv tracker1
   \<and> map_of (walls tracker1) (128, BID) = Some wall1
   \<and> side_levels wall_book4 BID = [\<lparr>price = 128, quantity = 1024\<rparr>]
   \<and> notional exact_ops \<lparr>price = 128, quantity = 1024\<rparr> = 131072
   \<and> threshold tracker1 = 200000
   \<and> tracker_update exact_ops tracker1 wall_book4 13 = (Inr [], tracker1)
   \<and> (\<exists>events t'.
           tracker_update exact_ops tracker1 wall_book4 13 = (Inr events, t')
         \<and> filter (\<lambda>e. event_key e = (128, BID)) events = []
         \<and> map_of (walls t') (128, BID) = Some wall1)
   \<and> current_qty wall1 = 2048 \<and> last_seen wall1 = 10"
proof -
  have p1: "positive_prices wall_book4" by (simp add: wall_eval)
  have p2: "walls_inv tracker1" by (simp add: wall_eval)
  have p3: "map_of (walls tracker1) (128, BID) = Some wall1" by (simp add: wall_eval)
  have p4: "128 \<in> price ` set (side_levels wall_book4 BID)" by (simp add: wall_eval)
  have p5: "\<forall>l \<in> set (side_levels wall_book4 BID).
             price l = 128 \<longrightarrow> notional exact_ops l < threshold tracker1"
    by (simp add: wall_eval)
  have p6: "side_levels wall_book4 BID = [\<lparr>price = 128, quantity = 1024\<rparr>]"
    by (simp add: wall_eval)
  have p7: "notional exact_ops \<lparr>price = 128, quantity = 1024\<rparr> = 131072"
    by (simp add: wall_eval)
  have p8: "threshold tracker1 = 200000" by (simp add: wall_eval)
  have p9: "tracker_update exact_ops tracker1 wall_book4 13 = (Inr [], tracker1)"
    by (simp add: tracker_eval wall_eval)
  have p10: "current_qty wall1 = 2048" and p11: "last_seen wall1 = 10"
    by (simp_all add: wall_eval)
  note main = wall_below_threshold_untouched [OF p1 p2 p3 p4 p5, of 13]
  show ?thesis
    apply (intro conjI)
    apply (rule p1)
    apply (rule p2)
    apply (rule p3)
    apply (rule p6)
    apply (rule p7)
    apply (rule p8)
    apply (rule p9)
    apply (rule main)
    apply (rule p10)
    apply (rule p11)
    done
qed

section \<open>Properties of the OFI calculator\<close>

text \<open>The bounded deque drops its oldest entry.\<close>

lemma deque_append_examples:
  "deque_append 3 [1, 2] 3 = [1, 2, 3]"
  "deque_append 2 [1, 2] 3 = [2, 3]"
  "deque_append 0 [] 3 = []"
  by (simp_all add: deque_append_def)

lemma length_deque_append: "length (deque_append n h x) \<le> length h + 1"
  by (simp add: deque_append_def Let_def)

lemma history_grows_by_one:
  "length (history (snd (ofi_update F c ob))) \<le> length (history c) + 1"
  using length_deque_append [of "maxlen c" "history c"]
  by (simp add: ofi_update_def Let_def split: option.splits)

text \<open>While fewer than twenty values can be in the history, the z-score is zero.\<close>

lemma z_score_zero_short_history:
  assumes "length (history c) + 1 < 20"
  shows "z_score (fst (ofi_update F c ob)) = 0"
proof (cases "prev_bids c")
  case None
  then show ?thesis by (simp add: ofi_update_def Let_def default_state_def)
next
  case (Some pb)
  have "\<not> 20 \<le> length (deque_append (maxlen c) (history c) x)" for x
    using length_deque_append [of "maxlen c" "history c" x] assms by simp
  then show ?thesis using Some by (simp add: ofi_update_def Let_def)
qed

text \<open>
  The returned z-score in terms of the calculator after the call, provided a calculator
  without previous levels has a short history (as every calculator reached from a fresh
  one has).
\<close>

lemma z_score_of_update:
  assumes "prev_bids c = None \<longrightarrow> length (history c) < 20"
  shows "z_score (fst (ofi_update F c ob)) =
     (if 20 \<le> length (history (snd (ofi_update F c ob)))
         \<and> 0 < py_std F (history (snd (ofi_update F c ob)))
      then fdiv F (ema (fst (ofi_update F c ob)))
                  (py_std F (history (snd (ofi_update F c ob))))
      else 0)"
proof (cases "prev_bids c")
  case None
  with assms show ?thesis by (simp add: ofi_update_def Let_def default_state_def)
next
  case (Some pb)
  then show ?thesis by (simp add: ofi_update_def Let_def)
qed

lemma prev_bids_after_update: "prev_bids (snd (ofi_update F c ob)) \<noteq> None"
  by (simp add: ofi_update_def Let_def split: option.splits)

lemma run_state_snoc:
  "run_state F c (obs @ [ob]) = snd (ofi_update F (run_state F c obs) ob)"
  by (induction obs arbitrary: c) simp_all

lemma run_state_take_Suc:
  assumes "i < length obs"
  shows "run_state F c (take (Suc i) obs)
       = snd (ofi_update F (run_state F c (take i obs)) (obs ! i))"
  using assms by (simp add: take_Suc_conv_app_nth run_state_snoc)

lemma nth_run_updates:
  assumes "i < length obs"
  shows "run_updates F c obs ! i = fst (ofi_update F (run_state F c (take i obs)) (obs ! i))"
  using assms
proof (induction obs arbitrary: c i)
  case Nil
  then show ?case by simp
next
  case (Cons ob obs)
  then show ?case by (cases i) simp_all
qed

lemma run_state_history_length:
  "length (history (run_state F c obs)) \<le> length (history c) + length obs"
proof (induction obs arbitrary: c)
  case Nil
  show ?case by simp
next
  case (Cons ob obs)
  from Cons [of "snd (ofi_update F c ob)"] history_grows_by_one [of F c ob]
  show ?case by simp
qed

lemma run_state_short_or_seen:
  assumes "prev_bids c = None \<longrightarrow> length (history c) < 20"
  shows "prev_bids (run_state F c obs) = None \<longrightarrow> length (history (run_state F c obs)) < 20"
proof (cases obs rule: rev_cases)
  case Nil
  with assms show ?thesis by simp
next
  case (snoc xs x)
  then show ?thesis
    using prev_bids_after_update [of F "run_state F c xs" x] by (auto simp: run_state_snoc)
qed

lemma new_calculator_fresh:
  assumes "new_calculator F d n history_size = Inr c"
  shows "history c = []" and "prev_bids c = None"
  using assms by (auto simp: new_calculator_def split: if_splits)

text \<open>
  Claim C5. Starting from a calculator as the constructor returns it and calling
  \<open>update\<close> on any list of snapshots, each of the first nineteen calls returns a
  z-score of exactly zero. More precisely, the z-score returned by any call is the
  double quotient of the returned \<open>ema\<close> by \<open>\<sigma>\<close>, the population standard deviation
  of the history as \<^verbatim>\<open>_std\<close> computes it in doubles, when, after the call, the history
  holds at least twenty entries and \<open>\<sigma>\<close> is positive, and it is exactly zero otherwise.
\<close>

theorem z_score_zero_for_first_calls:
  assumes "new_calculator F d n history_size = Inr c" and "i < length obs"
  shows "(i < 19 \<longrightarrow> z_score (run_updates F c obs ! i) = 0)
       \<and> z_score (run_updates F c obs ! i) =
           (if 20 \<le> length (history (run_state F c (take (Suc i) obs)))
               \<and> 0 < py_std F (history (run_state F c (take (Suc i) obs)))
            then fdiv F (ema (run_updates F c obs ! i))
                        (py_std F (history (run_state F c (take (Suc i) obs))))
            else 0)"
proof -
  let ?c = "run_state F c (take i obs)"
  have out: "run_updates F c obs ! i = fst (ofi_update F ?c (obs ! i))"
    using nth_run_updates [OF assms(2)] .
  have nxt: "run_state F c (take (Suc i) obs) = snd (ofi_update F ?c (obs ! i))"
    using run_state_take_Suc [OF assms(2)] .
  have "length (history ?c) \<le> i"
    using run_state_history_length [of F c "take i obs"] new_calculator_fresh(1) [OF assms(1)]
      assms(2)
    by simp
  then have first: "z_score (run_updates F c obs ! i) = 0" if "i < 19"
    unfolding out using that by (intro z_score_zero_short_history) simp
  have "prev_bids c = None \<longrightarrow> length (history c) < 20"
    using new_calculator_fresh(1) [OF assms(1)] by simp
  then have "prev_bids ?c = None \<longrightarrow> length (history ?c) < 20"
    by (rule run_state_short_or_seen)
  from z_score_of_update [OF this, where ob = "obs ! i" and F = F] first
  show ?thesis unfolding out nxt by simp
qed

lemmas ofi_eval =
  ofi_update_def calculate_raw_ofi_def side_delta_def qty_at_def deque_append_def
  get_signal_def default_state_def py_take_def Let_def exact_ops_def

text \<open>
  The witness: twenty-one calls on snapshots whose bid alternates between 2 and 3. The
  first call stores the levels; the next nineteen return the raw values 2 and -2 with a
  z-score of zero; the twenty-first call completes a history of twenty values, of
  standard deviation 2, and returns the z-score \<open>ema / \<sigma>\<close>, half of the moving average
  \<open>-87381 / 131072\<close>.
\<close>

lemma ofi_run_values:
  "map raw (run_updates exact_ops calc0 ofi_books)
     = [0, 2, -2, 2, -2, 2, -2, 2, -2, 2, -2, 2, -2, 2, -2, 2, -2, 2, -2, 2, -2]"
  "map ema (run_updates exact_ops calc0 ofi_books)
     = [0, 2, 0, 1, - 1 / 2, 3 / 4, - 5 / 8, 11 / 16, - 21 / 32, 43 / 64, - 85 / 128,
        171 / 256, - 341 / 512, 683 / 1024, - 1365 / 2048, 2731 / 4096, - 5461 / 8192,
        10923 / 16384, - 21845 / 32768, 43691 / 65536, - 87381 / 131072]"
  "history (run_state exact_ops calc0 ofi_books)
     = [2, -2, 2, -2, 2, -2, 2, -2, 2, -2, 2, -2, 2, -2, 2, -2, 2, -2, 2, -2]"
  by (simp_all add: ofi_eval calc0_def ofi_books_def book_a_def book_b_def)

lemma py_std_alternating:
  "py_std exact_ops [2, -2, 2, -2, 2, -2, 2, -2, 2, -2, 2, -2, 2, -2, 2, -2, 2, -2, 2, -2] = 2"
  by (simp add: py_std_def exact_ops_def Let_def)

theorem z_score_zero_for_first_calls_witness:
  "new_calculator exact_ops 10 3 100 = Inr calc0
   \<and> length ofi_books = 21
   \<and> map raw (run_updates exact_ops calc0 ofi_books)
       = [0, 2, -2, 2, -2, 2, -2, 2, -2, 2, -2, 2, -2, 2, -2, 2, -2, 2, -2, 2, -2]
   \<and> z_score (run_updates exact_ops calc0 ofi_books ! 18) = 0
   \<and> history (run_state exact_ops calc0 (take 21 ofi_books))
       = [2, -2, 2, -2, 2, -2, 2, -2, 2, -2, 2, -2, 2, -2, 2, -2, 2, -2, 2, -2]
   \<and> py_std exact_ops (history (run_state exact_ops calc0 (take 21 ofi_books))) = 2
   \<and> ema (run_updates exact_ops calc0 ofi_books ! 20) = - 87381 / 131072
   \<and> z_score (run_updates exact_ops calc0 ofi_books ! 20) = - 87381 / 262144"
proof -
  have f: "new_calculator exact_ops 10 3 100 = Inr calc0"
    by (simp add: new_calculator_def calc0_def exact_ops_def)
  have l: "length ofi_books = 21" by (simp add: ofi_books_def)
  have l18: "18 < length ofi_books" and l20: "20 < length ofi_books"
    using l by simp_all
  have n: "(18 :: nat) < 19" by simp
  have t: "take 21 ofi_books = ofi_books" using l by simp
  have h: "history (run_state exact_ops calc0 (take 21 ofi_books))
       = [2, -2, 2, -2, 2, -2, 2, -2, 2, -2, 2, -2, 2, -2, 2, -2, 2, -2, 2, -2]"
    unfolding t by (rule ofi_run_values(3))
  have s: "py_std exact_ops (history (run_state exact_ops calc0 (take 21 ofi_books))) = 2"
    unfolding h by (rule py_std_alternating)
  have "length (run_updates exact_ops calc0 ofi_books) = 21"
    using arg_cong [OF ofi_run_values(2), of length] by simp
  then have "ema (run_updates exact_ops calc0 ofi_books ! 20)
      = map ema (run_updates exact_ops calc0 ofi_books) ! 20"
    by simp
  then have e: "ema (run_updates exact_ops calc0 ofi_books ! 20) = - 87381 / 131072"
    unfolding ofi_run_values(2) by simp
  have c: "20 \<le> length (history (run_state exact_ops calc0 (take (Suc 20) ofi_books)))
      \<and> 0 < py_std exact_ops (history (run_state exact_ops calc0 (take (Suc 20) ofi_books)))"
    using h s by simp
  have z18: "z_score (run_updates exact_ops calc0 ofi_books ! 18) = 0"
    using z_score_zero_for_first_calls [OF f l18] n by blast
  have "z_score (run_updates exact_ops calc0 ofi_books ! 20)
      = fdiv exact_ops (ema (run_updates exact_ops calc0 ofi_books ! 20))
          (py_std exact_ops (history (run_state exact_ops calc0 (take (Suc 20) ofi_books))))"
    using conjunct2 [OF z_score_zero_for_first_calls [OF f l20]] unfolding if_P [OF c] .
  then have z20: "z_score (run_updates exact_ops calc0 ofi_books ! 20) = - 87381 / 262144"
    using e s by (simp add: exact_ops_def)
  show ?thesis
    apply (intro conjI)
    apply (rule f)
    apply (rule l)
    apply (rule ofi_run_values(1))
    apply (rule z18)
    apply (rule h)
    apply (rule s)
    apply (rule e)
    apply (rule z20)
    done
qed

end
